theory Spec2Isabelle
  imports Main "HOL-Library.Word"
begin

unbundle bit_operations_syntax

section \<open>Runtime filters of the pipeline engine: the model\<close>

text \<open>
  A shallow embedding of \<^verbatim>\<open>be/src/exec/pipeline/runtime_filter_types.h\<close>.
  \<^item> \<^verbatim>\<open>size_t\<close> is a 64-bit word: subtraction and addition wrap around.
  \<^item> \<^verbatim>\<open>TupleId\<close>, \<^verbatim>\<open>SlotId\<close> and \<^verbatim>\<open>TPlanNodeId\<close> are 32-bit integers that the
    code only compares and copies.
  \<^item> A \<^verbatim>\<open>Status\<close> is \<open>OK\<close> or an error with its message.
  \<^item> A raw pointer that may be null is an \<open>option\<close>; \<open>None\<close> is \<^verbatim>\<open>nullptr\<close>.
  \<^item> Where the C++ would read or write out of range, or step an iterator past the end
    of its list, the behaviour is undefined; the functions concerned return an
    \<open>option\<close>, and \<open>None\<close> stands for undefined behaviour.
\<close>

type_synonym size_t = "64 word"
type_synonym TupleId = "32 word"
type_synonym SlotId = "32 word"
type_synonym TPlanNodeId = "32 word"

datatype Status = OK | Error string

subsection \<open>RuntimeFilterCollector\<close>

record TupleSlotMapping =
  from_tuple_id :: TupleId
  from_slot_id :: SlotId
  to_tuple_id :: TupleId
  to_slot_id :: SlotId

text \<open>
  The column reference that is child 0 of the root of an in-filter
  (\<^verbatim>\<open>vectorized::ColumnRef\<close>), with the two fields the rewrite reads and writes.
\<close>

record ColumnRef =
  tuple_id :: TupleId
  slot_id :: SlotId

text \<open>
  A runtime in-filter (\<^verbatim>\<open>ExprContext\<close>): its root is a predicate whose child 0 is a column
  reference (the \<^verbatim>\<open>DCHECK\<close> of \<^verbatim>\<open>rewrite_in_filters\<close>); the rest of the predicate, which
  the rewrite never touches, is the payload \<open>'p\<close>.
\<close>

record 'p RuntimeInFilter =
  child0 :: ColumnRef
  predicate :: 'p

text \<open>
  Modelled from the spec: \<^verbatim>\<open>Expr::is_bound\<close> is declared in \<^verbatim>\<open>exprs/expr.h\<close>, which is
  absent. By the spec the root of an in-filter is an IN-predicate over a single column
  reference that carries a \<open>(tuple_id, slot_id)\<close> pair, and binding is tested "by asking
  the predicate whether it is bound to the singleton tuple set": the root is bound to a
  list of tuple ids when the tuple id of its column reference is among them.
\<close>

definition is_bound :: "'p RuntimeInFilter \<Rightarrow> TupleId list \<Rightarrow> bool" where
  "is_bound in_filter tuple_ids = (tuple_id (child0 in_filter) \<in> set tuple_ids)"

record ('p, 'b) RuntimeFilterCollector =
  in_filters :: "'p RuntimeInFilter list"
  bloom_filters :: "'b list"

text \<open>The body of the inner loop of \<^verbatim>\<open>rewrite_in_filters\<close>, for one mapping and one in-filter.\<close>

definition rewrite_in_filter :: "TupleSlotMapping \<Rightarrow> 'p RuntimeInFilter \<Rightarrow> 'p RuntimeInFilter" where
  "rewrite_in_filter mapping in_filter =
     (if \<not> is_bound in_filter [to_tuple_id mapping] then in_filter
      else if slot_id (child0 in_filter) = to_slot_id mapping
        then in_filter\<lparr>child0 := \<lparr>tuple_id = from_tuple_id mapping, slot_id = from_slot_id mapping\<rparr>\<rparr>
        else in_filter)"

text \<open>The outer loop runs over the mappings in order, the inner one over all in-filters.\<close>

fun rewrite_in_filters ::
  "TupleSlotMapping list \<Rightarrow> ('p, 'b) RuntimeFilterCollector \<Rightarrow> ('p, 'b) RuntimeFilterCollector" where
  "rewrite_in_filters [] c = c"
| "rewrite_in_filters (mapping # mappings) c =
     rewrite_in_filters mappings (c\<lparr>in_filters := map (rewrite_in_filter mapping) (in_filters c)\<rparr>)"

definition get_in_filters_bounded_by_tuple_ids ::
  "TupleId list \<Rightarrow> ('p, 'b) RuntimeFilterCollector \<Rightarrow> 'p RuntimeInFilter list" where
  "get_in_filters_bounded_by_tuple_ids tuple_ids c =
     filter (\<lambda>in_filter. is_bound in_filter tuple_ids) (in_filters c)"

subsection \<open>RuntimeFilterHolder\<close>

text \<open>
  \<open>'a\<close> is the identity (the address) of a \<^verbatim>\<open>RuntimeFilterCollector\<close>. The owning
  \<^verbatim>\<open>unique_ptr\<close> and the atomic raw pointer are both null in a fresh holder
  (\<^verbatim>\<open>make_unique\<close> value-initialises it). The calls on a holder are taken in the order in
  which the atomic store and loads take effect.
\<close>

record 'a RuntimeFilterHolder =
  collector_ownership :: "'a option"
  collector :: "'a option"

definition new_holder :: "'a RuntimeFilterHolder" where
  "new_holder = \<lparr>collector_ownership = None, collector = None\<rparr>"

definition set_collector :: "'a option \<Rightarrow> 'a RuntimeFilterHolder \<Rightarrow> 'a RuntimeFilterHolder" where
  "set_collector c h = (let h1 = h\<lparr>collector_ownership := c\<rparr> in h1\<lparr>collector := collector_ownership h1\<rparr>)"

definition get_collector :: "'a RuntimeFilterHolder \<Rightarrow> 'a option" where
  "get_collector h = collector h"

definition is_ready :: "'a RuntimeFilterHolder \<Rightarrow> bool" where
  "is_ready h = (get_collector h \<noteq> None)"

datatype 'a holder_call = SetCollector "'a option" | GetCollector

text \<open>A sequence of calls on one holder; the result lists what each \<^verbatim>\<open>get_collector\<close> returned.\<close>

fun holder_run :: "'a RuntimeFilterHolder \<Rightarrow> 'a holder_call list \<Rightarrow> 'a option list" where
  "holder_run h [] = []"
| "holder_run h (SetCollector c # calls) = holder_run (set_collector c h) calls"
| "holder_run h (GetCollector # calls) = get_collector h # holder_run h calls"

text \<open>The pointers handed to \<^verbatim>\<open>set_collector\<close> in a sequence of calls.\<close>

fun installed :: "'a holder_call list \<Rightarrow> 'a option list" where
  "installed [] = []"
| "installed (SetCollector c # calls) = c # installed calls"
| "installed (GetCollector # calls) = installed calls"

subsection \<open>RuntimeFilterHub\<close>

text \<open>
  The hub owns its holders through \<^verbatim>\<open>unique_ptr\<close>s stored in an \<^verbatim>\<open>unordered_map\<close>. The
  holders live in a store, a list indexed by address; \<open>holders\<close> maps a plan node id to
  the address of its holder. \<^verbatim>\<open>add_holder\<close> first allocates a fresh holder
  (\<^verbatim>\<open>make_unique\<close>), then \<^verbatim>\<open>emplace\<close> inserts the pair unless the key is present; in that
  case the pair is dropped and the fresh holder is freed again.
\<close>

record 'a RuntimeFilterHub =
  holders :: "TPlanNodeId \<rightharpoonup> nat"
  store :: "'a RuntimeFilterHolder list"

definition new_hub :: "'a RuntimeFilterHub" where
  "new_hub = \<lparr>holders = Map.empty, store = []\<rparr>"

definition add_holder :: "TPlanNodeId \<Rightarrow> 'a RuntimeFilterHub \<Rightarrow> 'a RuntimeFilterHub" where
  "add_holder node_id hub =
     (let a = length (store hub);
          hub1 = hub\<lparr>store := store hub @ [new_holder]\<rparr>
      in case holders hub1 node_id of
           None \<Rightarrow> hub1\<lparr>holders := (holders hub1)(node_id \<mapsto> a)\<rparr>
         | Some _ \<Rightarrow> hub1\<lparr>store := take a (store hub1)\<rparr>)"

text \<open>
  \<^verbatim>\<open>get_holder\<close>: the address of the holder of a plan node. Without the \<^verbatim>\<open>DCHECK\<close>,
  dereferencing \<^verbatim>\<open>end()\<close> for an unknown id is undefined.
\<close>

definition get_holder :: "TPlanNodeId \<Rightarrow> 'a RuntimeFilterHub \<Rightarrow> nat option" where
  "get_holder node_id hub =
     (case holders hub node_id of
        None \<Rightarrow> None
      | Some a \<Rightarrow> if a < length (store hub) then Some a else None)"

definition hub_set_collector :: "TPlanNodeId \<Rightarrow> 'a option \<Rightarrow> 'a RuntimeFilterHub \<Rightarrow> 'a RuntimeFilterHub option" where
  "hub_set_collector node_id c hub =
     (case get_holder node_id hub of
        None \<Rightarrow> None
      | Some a \<Rightarrow> Some (hub\<lparr>store := (store hub)[a := set_collector c (store hub ! a)]\<rparr>))"

text \<open>\<^verbatim>\<open>gather_holders\<close>; \<open>ids\<close> lists the elements of the \<^verbatim>\<open>std::set\<close> in its iteration order.\<close>

fun gather_holders :: "TPlanNodeId list \<Rightarrow> 'a RuntimeFilterHub \<Rightarrow> nat list option" where
  "gather_holders [] hub = Some []"
| "gather_holders (node_id # ids) hub =
     (case get_holder node_id hub of
        None \<Rightarrow> None
      | Some a \<Rightarrow> (case gather_holders ids hub of None \<Rightarrow> None | Some as \<Rightarrow> Some (a # as)))"

text \<open>What a reader sees through the holder of a plan node.\<close>

definition hub_get_collector :: "TPlanNodeId \<Rightarrow> 'a RuntimeFilterHub \<Rightarrow> 'a option option" where
  "hub_get_collector node_id hub =
     (case get_holder node_id hub of
        None \<Rightarrow> None
      | Some a \<Rightarrow> Some (get_collector (store hub ! a)))"

subsection \<open>RefCountedRuntimeFilterProbeCollector\<close>

text \<open>
  The wrapped \<^verbatim>\<open>RuntimeFilterProbeCollector\<close> is a collaborator: the model keeps the
  statuses its \<^verbatim>\<open>prepare\<close> and \<^verbatim>\<open>open\<close> return and logs every call made on it.
\<close>

datatype probe_event = WrappedPrepare | WrappedOpen | WrappedClose

record RuntimeFilterProbeCollector =
  prepare_status :: Status
  open_status :: Status
  events :: "probe_event list"

definition log_event :: "probe_event \<Rightarrow> RuntimeFilterProbeCollector \<Rightarrow> RuntimeFilterProbeCollector" where
  "log_event e c = c\<lparr>events := events c @ [e]\<rparr>"

record RefCountedRuntimeFilterProbeCollector =
  count :: size_t
  num_operators_generated :: size_t
  rf_probe_collector :: RuntimeFilterProbeCollector

definition new_ref_counted ::
  "size_t \<Rightarrow> RuntimeFilterProbeCollector \<Rightarrow> RefCountedRuntimeFilterProbeCollector" where
  "new_ref_counted n c =
     \<lparr>count = push_bit 32 n OR n, num_operators_generated = n, rf_probe_collector = c\<rparr>"

text \<open>\<^verbatim>\<open>prepare\<close>: \<^verbatim>\<open>fetch_sub(1)\<close> returns the value before the subtraction.\<close>

definition prepare ::
  "RefCountedRuntimeFilterProbeCollector \<Rightarrow> Status \<times> RefCountedRuntimeFilterProbeCollector" where
  "prepare rc =
     (let old = count rc; rc1 = rc\<lparr>count := old - 1\<rparr> in
      if old AND 0xffffffff = num_operators_generated rc1 then
        (let rc2 = rc1\<lparr>rf_probe_collector := log_event WrappedPrepare (rf_probe_collector rc1)\<rparr> in
         if prepare_status (rf_probe_collector rc2) \<noteq> OK
         then (prepare_status (rf_probe_collector rc2), rc2)
         else
           (let rc3 = rc2\<lparr>rf_probe_collector := log_event WrappedOpen (rf_probe_collector rc2)\<rparr> in
            if open_status (rf_probe_collector rc3) \<noteq> OK
            then (open_status (rf_probe_collector rc3), rc3)
            else (OK, rc3)))
      else (OK, rc1))"

definition close :: "RefCountedRuntimeFilterProbeCollector \<Rightarrow> RefCountedRuntimeFilterProbeCollector" where
  "close rc =
     (let k = push_bit 32 1; old = count rc; rc1 = rc\<lparr>count := old - k\<rparr> in
      if old = k
      then rc1\<lparr>rf_probe_collector := log_event WrappedClose (rf_probe_collector rc1)\<rparr>
      else rc1)"

datatype ref_counted_call = Prepare | Close

text \<open>A sequence of calls by the sibling operator factories, in the order of their atomic updates.\<close>

fun ref_counted_run ::
  "RefCountedRuntimeFilterProbeCollector \<Rightarrow> ref_counted_call list \<Rightarrow> RefCountedRuntimeFilterProbeCollector" where
  "ref_counted_run rc [] = rc"
| "ref_counted_run rc (Prepare # calls) = ref_counted_run (snd (prepare rc)) calls"
| "ref_counted_run rc (Close # calls) = ref_counted_run (close rc) calls"

definition times_run :: "probe_event \<Rightarrow> RefCountedRuntimeFilterProbeCollector \<Rightarrow> nat" where
  "times_run e rc = length (filter (\<lambda>x. x = e) (events (rf_probe_collector rc)))"

subsection \<open>PartialRuntimeFilterMerger\<close>

record 'col RuntimeBloomFilterBuildParam =
  eq_null :: bool
  column :: "'col option"
  ht_row_count :: size_t

text \<open>
  A bloom-filter descriptor (\<^verbatim>\<open>vectorized::RuntimeFilterBuildDescriptor\<close>), with the fields
  the merger reads and writes. \<open>'ty\<close> is \<^verbatim>\<open>PrimitiveType\<close>, \<open>'jm\<close> the join mode and
  \<open>'f\<close> a \<^verbatim>\<open>JoinRuntimeFilter\<close>.
\<close>

record ('ty, 'jm, 'f) RuntimeFilterBuildDescriptor =
  build_expr_type :: 'ty
  join_mode :: 'jm
  has_consumer :: bool
  has_remote_targets :: bool
  is_pipeline :: bool
  runtime_filter :: "'f option"

text \<open>
  The operations of \<^verbatim>\<open>exprs/vectorized/runtime_filter_bank.h\<close>, which is absent, are
  parameters: \<^verbatim>\<open>RuntimeFilterHelper::create_runtime_bloom_filter\<close> (null for a type it does
  not support), \<^verbatim>\<open>JoinRuntimeFilter::init\<close> and \<^verbatim>\<open>set_join_mode\<close>, and
  \<^verbatim>\<open>RuntimeFilterHelper::fill_runtime_bloom_filter\<close> at the constant column offset
  \<^verbatim>\<open>kHashJoinKeyColumnOffset\<close>, which returns a status and leaves the filter changed.
\<close>

record ('ty, 'jm, 'col, 'f) RuntimeFilterHelper =
  create_runtime_bloom_filter :: "'ty \<Rightarrow> 'f option"
  init :: "size_t \<Rightarrow> 'f \<Rightarrow> 'f"
  set_join_mode :: "'jm \<Rightarrow> 'f \<Rightarrow> 'f"
  fill_runtime_bloom_filter :: "'col \<Rightarrow> 'ty \<Rightarrow> 'f \<Rightarrow> bool \<Rightarrow> Status \<times> 'f"

text \<open>
  The merger. \<open>'in\<close> is an in-filter (an \<^verbatim>\<open>ExprContext\<close> with a \<^verbatim>\<open>Predicate\<close> at its root);
  the entries of an in-filter list are pointers and may be null. Every builder owns the
  in-filters it hands over, so that merging into one of them changes no other. The object
  pool is left out.
\<close>

record ('in, 'ty, 'jm, 'col, 'f) PartialRuntimeFilterMerger =
  limit :: size_t
  num_active_builders :: size_t
  ht_row_counts :: "size_t list"
  partial_in_filters :: "'in option list list"
  partial_bloom_filter_build_params :: "'col RuntimeBloomFilterBuildParam list list"
  bloom_filter_descriptors :: "('ty, 'jm, 'f) RuntimeFilterBuildDescriptor list"

definition new_merger :: "size_t \<Rightarrow> size_t \<Rightarrow> ('in, 'ty, 'jm, 'col, 'f) PartialRuntimeFilterMerger" where
  "new_merger lim num_builders =
     \<lparr>limit = lim,
      num_active_builders = num_builders,
      ht_row_counts = replicate (unat num_builders) 0,
      partial_in_filters = replicate (unat num_builders) [],
      partial_bloom_filter_build_params = replicate (unat num_builders) [],
      bloom_filter_descriptors = []\<rparr>"

text \<open>
  The first loop of \<^verbatim>\<open>merge_in_filters\<close>, from index \<open>i\<close> on. The state is
  \<open>(can_merge_in_filters, num_rows, k, _partial_in_filters)\<close>; \<^verbatim>\<open>break\<close> returns at once. A
  list that has been moved from is empty.
\<close>

function squeeze ::
  "size_t list \<Rightarrow> nat \<Rightarrow> bool \<times> size_t \<times> int \<times> 'a list list \<Rightarrow> (bool \<times> size_t \<times> int \<times> 'a list list) option" where
  "squeeze hts i (can, num_rows, k, pif) =
     (if i < length hts then
        (if \<not> i < length pif then None
         else if hts ! i = 0 then squeeze hts (Suc i) (can, num_rows, k, pif)
         else if pif ! i = [] then Some (False, num_rows, k, pif)
         else
           (let k1 = k + 1;
                pif1 = (if k1 < int i then pif[nat k1 := pif ! i, i := []] else pif)
            in squeeze hts (Suc i) (can, max num_rows (hts ! i), k1, pif1)))
      else Some (can, num_rows, k, pif))"
  by pat_completeness auto
termination
  by (relation "measure (\<lambda>(hts, i, s). length hts - i)") auto

text \<open>
  The \<^verbatim>\<open>while\<close> loop that merges one builder's list into the total list, position by
  position; \<open>pmerge\<close> is \<^verbatim>\<open>Predicate::merge\<close>, which returns a status and leaves the total
  predicate changed. The loop runs to the end of the total list: when the builder's list
  ends first, its iterator is stepped past the end. \<^verbatim>\<open>RETURN_IF_ERROR\<close> leaves the loop
  with the rest of the total list as it is.
\<close>

fun merge_in_filter_list ::
  "('in \<Rightarrow> 'in \<Rightarrow> Status \<times> 'in) \<Rightarrow> 'in option list \<Rightarrow> 'in option list \<Rightarrow> (Status \<times> 'in option list) option" where
  "merge_in_filter_list pmerge [] ins = Some (OK, [])"
| "merge_in_filter_list pmerge (t # ts) [] = None"
| "merge_in_filter_list pmerge (t # ts) (x # xs) =
     (if t = None \<or> x = None then
        (case merge_in_filter_list pmerge ts xs of
           None \<Rightarrow> None
         | Some (st, ts1) \<Rightarrow> Some (st, None # ts1))
      else
        (let (st, t1) = pmerge (the t) (the x) in
         if st \<noteq> OK then Some (st, Some t1 # ts)
         else
           (case merge_in_filter_list pmerge ts xs of
              None \<Rightarrow> None
            | Some (st1, ts1) \<Rightarrow> Some (st1, Some t1 # ts1))))"

text \<open>The \<^verbatim>\<open>for\<close> loop over the slots \<open>1, ..., k\<close>, merging each into the total list of slot 0.\<close>

fun merge_slots ::
  "('in \<Rightarrow> 'in \<Rightarrow> Status \<times> 'in) \<Rightarrow> 'in option list \<Rightarrow> 'in option list list \<Rightarrow> (Status \<times> 'in option list) option" where
  "merge_slots pmerge total_in_filters [] = Some (OK, total_in_filters)"
| "merge_slots pmerge total_in_filters (ins # rest) =
     (case merge_in_filter_list pmerge total_in_filters ins of
        None \<Rightarrow> None
      | Some (st, total_in_filters1) \<Rightarrow> if st \<noteq> OK then Some (st, total_in_filters1) else merge_slots pmerge total_in_filters1 rest)"

text \<open>\<^verbatim>\<open>std::vector::resize\<close>.\<close>

definition resize :: "nat \<Rightarrow> 'a list list \<Rightarrow> 'a list list" where
  "resize n xs = take n xs @ replicate (n - length xs) []"

definition merge_in_filters ::
  "('in \<Rightarrow> 'in \<Rightarrow> Status \<times> 'in) \<Rightarrow> ('in, 'ty, 'jm, 'col, 'f) PartialRuntimeFilterMerger
     \<Rightarrow> (Status \<times> ('in, 'ty, 'jm, 'col, 'f) PartialRuntimeFilterMerger) option" where
  "merge_in_filters pmerge m =
     (case squeeze (ht_row_counts m) 0 (True, 0, - 1, partial_in_filters m) of
        None \<Rightarrow> None
      | Some (can, num_rows, k, pif) \<Rightarrow>
          (let can_merge_in_filters = (can \<and> num_rows \<le> 1024 \<and> k \<ge> 0) in
           if \<not> can_merge_in_filters then
             (if pif = [] then None
              else Some (OK, m\<lparr>partial_in_filters := pif[0 := []]\<rparr>))
           else
             (let pif1 = resize (nat (k + 1)) pif in
              case merge_slots pmerge (pif1 ! 0) (tl pif1) of
                None \<Rightarrow> None
              | Some (st, total_in_filters) \<Rightarrow>
                  if st \<noteq> OK then Some (st, m\<lparr>partial_in_filters := pif1[0 := total_in_filters]\<rparr>)
                  else Some (OK, m\<lparr>partial_in_filters := pif1[0 := filter (\<lambda>x. x \<noteq> None) total_in_filters]\<rparr>))))"

text \<open>\<^verbatim>\<open>get_total_in_filters\<close> reads slot 0, which a merger without builders does not have.\<close>

definition get_total_in_filters ::
  "('in, 'ty, 'jm, 'col, 'f) PartialRuntimeFilterMerger \<Rightarrow> 'in option list option" where
  "get_total_in_filters m = (case partial_in_filters m of [] \<Rightarrow> None | total_in_filters # _ \<Rightarrow> Some total_in_filters)"

definition get_total_bloom_filters ::
  "('in, 'ty, 'jm, 'col, 'f) PartialRuntimeFilterMerger \<Rightarrow> ('ty, 'jm, 'f) RuntimeFilterBuildDescriptor list" where
  "get_total_bloom_filters m = bloom_filter_descriptors m"

text \<open>The sum of the row counts, as the first loop of \<^verbatim>\<open>merge_bloom_filters\<close> adds them up.\<close>

definition total_row_count :: "size_t list \<Rightarrow> size_t" where
  "total_row_count hts = foldl (\<lambda>row_count count. row_count + count) 0 hts"

text \<open>The body of the second loop of \<^verbatim>\<open>merge_bloom_filters\<close>, for one descriptor.\<close>

definition create_bloom_filter ::
  "('ty, 'jm, 'col, 'f) RuntimeFilterHelper \<Rightarrow> size_t \<Rightarrow> size_t \<Rightarrow>
     ('ty, 'jm, 'f) RuntimeFilterBuildDescriptor \<Rightarrow> ('ty, 'jm, 'f) RuntimeFilterBuildDescriptor" where
  "create_bloom_filter h lim row_count desc =
     (let d1 = desc\<lparr>is_pipeline := True\<rparr> in
      if \<not> has_consumer d1 then d1
      else if \<not> has_remote_targets d1 \<and> row_count > lim then d1
      else
        (case create_runtime_bloom_filter h (build_expr_type d1) of
           None \<Rightarrow> d1
         | Some flt \<Rightarrow>
             d1\<lparr>runtime_filter := Some (set_join_mode h (join_mode d1) (init h row_count flt))\<rparr>))"

text \<open>
  The inner \<^verbatim>\<open>while\<close> loop of the last loop: one builder's parameters, pairwise with the
  descriptors. It runs to the end of the parameters: when the descriptors end first, their
  iterator is stepped past the end.
\<close>

definition fill_bloom_filter ::
  "('ty, 'jm, 'col, 'f) RuntimeFilterHelper \<Rightarrow> ('ty, 'jm, 'f) RuntimeFilterBuildDescriptor \<Rightarrow>
     'col RuntimeBloomFilterBuildParam \<Rightarrow> ('ty, 'jm, 'f) RuntimeFilterBuildDescriptor" where
  "fill_bloom_filter h desc param =
     (if runtime_filter desc = None \<or> column param = None then desc
      else
        (let (status, flt) =
               fill_runtime_bloom_filter h (the (column param)) (build_expr_type desc)
                 (the (runtime_filter desc)) (eq_null param)
         in if status \<noteq> OK then desc\<lparr>runtime_filter := None\<rparr>
            else desc\<lparr>runtime_filter := Some flt\<rparr>))"

fun fill_bloom_filters ::
  "('ty, 'jm, 'col, 'f) RuntimeFilterHelper \<Rightarrow> ('ty, 'jm, 'f) RuntimeFilterBuildDescriptor list \<Rightarrow>
     'col RuntimeBloomFilterBuildParam list \<Rightarrow> ('ty, 'jm, 'f) RuntimeFilterBuildDescriptor list option" where
  "fill_bloom_filters h descs [] = Some descs"
| "fill_bloom_filters h [] (param # params) = None"
| "fill_bloom_filters h (desc # descs) (param # params) =
     (case fill_bloom_filters h descs params of
        None \<Rightarrow> None
      | Some descs1 \<Rightarrow> Some (fill_bloom_filter h desc param # descs1))"

fun fill_all_bloom_filters ::
  "('ty, 'jm, 'col, 'f) RuntimeFilterHelper \<Rightarrow> ('ty, 'jm, 'f) RuntimeFilterBuildDescriptor list \<Rightarrow>
     'col RuntimeBloomFilterBuildParam list list \<Rightarrow> ('ty, 'jm, 'f) RuntimeFilterBuildDescriptor list option" where
  "fill_all_bloom_filters h descs [] = Some descs"
| "fill_all_bloom_filters h descs (params # rest) =
     (case fill_bloom_filters h descs params of
        None \<Rightarrow> None
      | Some descs1 \<Rightarrow> fill_all_bloom_filters h descs1 rest)"

text \<open>The descriptors after the loop that creates the filters.\<close>

definition create_bloom_filters ::
  "('ty, 'jm, 'col, 'f) RuntimeFilterHelper \<Rightarrow> ('in, 'ty, 'jm, 'col, 'f) PartialRuntimeFilterMerger \<Rightarrow>
     ('ty, 'jm, 'f) RuntimeFilterBuildDescriptor list" where
  "create_bloom_filters h m =
     map (create_bloom_filter h (limit m) (total_row_count (ht_row_counts m))) (bloom_filter_descriptors m)"

definition merge_bloom_filters ::
  "('ty, 'jm, 'col, 'f) RuntimeFilterHelper \<Rightarrow> ('in, 'ty, 'jm, 'col, 'f) PartialRuntimeFilterMerger
     \<Rightarrow> (Status \<times> ('in, 'ty, 'jm, 'col, 'f) PartialRuntimeFilterMerger) option" where
  "merge_bloom_filters h m =
     (if partial_bloom_filter_build_params m = [] then Some (OK, m)
      else
        (case fill_all_bloom_filters h (create_bloom_filters h m) (partial_bloom_filter_build_params m) of
           None \<Rightarrow> None
         | Some descs \<Rightarrow> Some (OK, m\<lparr>bloom_filter_descriptors := descs\<rparr>)))"

text \<open>
  \<^verbatim>\<open>add_partial_filters\<close>. The three vectors are indexed without a check in a release
  build. The post-decrement \<^verbatim>\<open>_num_active_builders--\<close> yields the value before the
  subtraction. The statuses that \<^verbatim>\<open>merge_in_filters\<close> and \<^verbatim>\<open>merge_bloom_filters\<close> return
  are not looked at. The result is a \<^verbatim>\<open>StatusOr<bool>\<close>: \<open>Inl\<close> a status, \<open>Inr\<close> the flag.
\<close>

definition add_partial_filters ::
  "('in \<Rightarrow> 'in \<Rightarrow> Status \<times> 'in) \<Rightarrow> ('ty, 'jm, 'col, 'f) RuntimeFilterHelper \<Rightarrow>
     nat \<Rightarrow> size_t \<Rightarrow> 'in option list \<Rightarrow> 'col RuntimeBloomFilterBuildParam list \<Rightarrow>
     ('ty, 'jm, 'f) RuntimeFilterBuildDescriptor list \<Rightarrow>
     ('in, 'ty, 'jm, 'col, 'f) PartialRuntimeFilterMerger \<Rightarrow>
     ((Status + bool) \<times> ('in, 'ty, 'jm, 'col, 'f) PartialRuntimeFilterMerger) option" where
  "add_partial_filters pmerge h idx row_count in_fs params descs m =
     (if \<not> (idx < length (ht_row_counts m) \<and> idx < length (partial_in_filters m)
             \<and> idx < length (partial_bloom_filter_build_params m)) then None
      else
        (let m1 = m\<lparr>ht_row_counts := (ht_row_counts m)[idx := row_count],
                    partial_in_filters := (partial_in_filters m)[idx := in_fs],
                    partial_bloom_filter_build_params := (partial_bloom_filter_build_params m)[idx := params]\<rparr>;
             old = num_active_builders m1;
             m2 = m1\<lparr>num_active_builders := old - 1\<rparr>
         in if 1 = old then
              (let m3 = m2\<lparr>bloom_filter_descriptors := descs\<rparr> in
               case merge_in_filters pmerge m3 of
                 None \<Rightarrow> None
               | Some (_, m4) \<Rightarrow>
                   (case merge_bloom_filters h m4 of
                      None \<Rightarrow> None
                    | Some (_, m5) \<Rightarrow> Some (Inr True, m5)))
            else Some (Inr False, m2)))"

text \<open>The arguments of one call of \<^verbatim>\<open>add_partial_filters\<close>.\<close>

record ('in, 'ty, 'jm, 'col, 'f) partial_filters =
  builder_idx :: nat
  builder_ht_row_count :: size_t
  builder_in_filters :: "'in option list"
  builder_params :: "'col RuntimeBloomFilterBuildParam list"
  builder_descriptors :: "('ty, 'jm, 'f) RuntimeFilterBuildDescriptor list"

text \<open>
  The builders' calls, in the order of their atomic decrements; the result lists what
  each call returned.
\<close>

fun merger_run ::
  "('in \<Rightarrow> 'in \<Rightarrow> Status \<times> 'in) \<Rightarrow> ('ty, 'jm, 'col, 'f) RuntimeFilterHelper \<Rightarrow>
     ('in, 'ty, 'jm, 'col, 'f) PartialRuntimeFilterMerger \<Rightarrow> ('in, 'ty, 'jm, 'col, 'f) partial_filters list \<Rightarrow>
     ((Status + bool) list \<times> ('in, 'ty, 'jm, 'col, 'f) PartialRuntimeFilterMerger) option" where
  "merger_run pmerge h m [] = Some ([], m)"
| "merger_run pmerge h m (c # cs) =
     (case add_partial_filters pmerge h (builder_idx c) (builder_ht_row_count c) (builder_in_filters c)
             (builder_params c) (builder_descriptors c) m of
        None \<Rightarrow> None
      | Some (r, m1) \<Rightarrow>
          (case merger_run pmerge h m1 cs of
             None \<Rightarrow> None
           | Some (rs, m2) \<Rightarrow> Some (r # rs, m2)))"

declare squeeze.simps [simp del]

text \<open>
  The in-filter lists of the builders whose hash table is not empty, in the order of the
  builders: the lists that the first loop of \<^verbatim>\<open>merge_in_filters\<close> retains.
\<close>

definition retained :: "size_t list \<Rightarrow> 'a list list \<Rightarrow> 'a list list" where
  "retained hts pif = map snd (filter (\<lambda>(c, l). c \<noteq> 0) (zip hts pif))"

text \<open>
  The positional union of the specification, on the key sets of the retained lists (a null
  entry is \<open>None\<close>): a column position is kept when no retained list has a null entry
  there, and the merged set at a kept position holds the keys of all retained lists at this
  position, and no other key.
\<close>

definition positional_union :: "'k set option list list \<Rightarrow> 'k set list" where
  "positional_union ls =
     (case ls of
        [] \<Rightarrow> []
      | l # rest \<Rightarrow>
          map (\<lambda>p. \<Union>r \<in> set ls. the (r ! p))
            (filter (\<lambda>p. \<forall>r \<in> set ls. r ! p \<noteq> None) [0..<length l]))"

section \<open>Properties\<close>

subsection \<open>RuntimeFilterCollector: rewriting the in-filters\<close>

text \<open>Each in-filter is rewritten on its own, by the mappings in their order.\<close>

lemma rewrite_in_filters_map:
  "rewrite_in_filters ms c =
     c\<lparr>in_filters := map (\<lambda>f. foldl (\<lambda>g m. rewrite_in_filter m g) f ms) (in_filters c)\<rparr>"
  by (induction ms arbitrary: c) (simp_all add: comp_def)

lemma rewrite_in_filter_cases:
  "rewrite_in_filter m f =
     (if tuple_id (child0 f) = to_tuple_id m \<and> slot_id (child0 f) = to_slot_id m
      then f\<lparr>child0 := \<lparr>tuple_id = from_tuple_id m, slot_id = from_slot_id m\<rparr>\<rparr> else f)"
  by (simp add: rewrite_in_filter_def is_bound_def)

lemma foldl_rewrite_unmatched:
  "\<forall>m \<in> set ms. \<not> (tuple_id (child0 f) = to_tuple_id m \<and> slot_id (child0 f) = to_slot_id m) \<Longrightarrow>
   foldl (\<lambda>g m. rewrite_in_filter m g) f ms = f"
  by (induction ms) (auto simp: rewrite_in_filter_cases)

text \<open>An in-filter is left as it is or ends at the source coordinates of some mapping.\<close>

lemma foldl_rewrite_result:
  "foldl (\<lambda>g m. rewrite_in_filter m g) f ms = f \<or>
   (\<exists>m \<in> set ms. foldl (\<lambda>g m. rewrite_in_filter m g) f ms =
       f\<lparr>child0 := \<lparr>tuple_id = from_tuple_id m, slot_id = from_slot_id m\<rparr>\<rparr>)"
proof (induction ms arbitrary: f)
  case Nil
  then show ?case by simp
next
  case (Cons m ms)
  let ?g = "rewrite_in_filter m f"
  from Cons.IH[of ?g] show ?case
  proof
    assume "foldl (\<lambda>g m. rewrite_in_filter m g) ?g ms = ?g"
    then show ?thesis by (auto simp: rewrite_in_filter_cases)
  next
    assume "\<exists>x\<in>set ms. foldl (\<lambda>g m. rewrite_in_filter m g) ?g ms =
              ?g\<lparr>child0 := \<lparr>tuple_id = from_tuple_id x, slot_id = from_slot_id x\<rparr>\<rparr>"
    then show ?thesis by (auto simp: rewrite_in_filter_cases)
  qed
qed

lemma foldl_rewrite_idem:
  assumes "\<forall>a \<in> set ms. \<forall>b \<in> set ms.
             (from_tuple_id a, from_slot_id a) \<noteq> (to_tuple_id b, to_slot_id b)"
  shows "foldl (\<lambda>g m. rewrite_in_filter m g) (foldl (\<lambda>g m. rewrite_in_filter m g) f ms) ms =
         foldl (\<lambda>g m. rewrite_in_filter m g) f ms"
  using foldl_rewrite_result[of f ms]
proof
  assume "foldl (\<lambda>g m. rewrite_in_filter m g) f ms = f"
  then show ?thesis by simp
next
  assume "\<exists>m\<in>set ms. foldl (\<lambda>g m. rewrite_in_filter m g) f ms =
            f\<lparr>child0 := \<lparr>tuple_id = from_tuple_id m, slot_id = from_slot_id m\<rparr>\<rparr>"
  then obtain m where m: "m \<in> set ms"
    and e: "foldl (\<lambda>g m. rewrite_in_filter m g) f ms =
            f\<lparr>child0 := \<lparr>tuple_id = from_tuple_id m, slot_id = from_slot_id m\<rparr>\<rparr>"
    by blast
  have "foldl (\<lambda>g m. rewrite_in_filter m g)
          (f\<lparr>child0 := \<lparr>tuple_id = from_tuple_id m, slot_id = from_slot_id m\<rparr>\<rparr>) ms =
        f\<lparr>child0 := \<lparr>tuple_id = from_tuple_id m, slot_id = from_slot_id m\<rparr>\<rparr>"
    by (rule foldl_rewrite_unmatched) (use assms m in auto)
  then show ?thesis by (simp add: e)
qed

text \<open>
  C8, as stated, fails. With the mappings \<open>(1,1) \<leftarrow> (2,2)\<close> and \<open>(2,2) \<leftarrow> (3,3)\<close> in this
  order, an in-filter on tuple 3, slot 3 is moved to \<open>(2,2)\<close> by the first application
  (only the second mapping matches it) and on to \<open>(1,1)\<close> by the second application.
\<close>

theorem rewrite_in_filters_twice_counterexample:
  "rewrite_in_filters
     [\<lparr>from_tuple_id = 1, from_slot_id = 1, to_tuple_id = 2, to_slot_id = 2\<rparr>,
      \<lparr>from_tuple_id = 2, from_slot_id = 2, to_tuple_id = 3, to_slot_id = 3\<rparr>]
     (rewrite_in_filters
        [\<lparr>from_tuple_id = 1, from_slot_id = 1, to_tuple_id = 2, to_slot_id = 2\<rparr>,
         \<lparr>from_tuple_id = 2, from_slot_id = 2, to_tuple_id = 3, to_slot_id = 3\<rparr>]
        \<lparr>in_filters = [\<lparr>child0 = \<lparr>tuple_id = 3, slot_id = 3\<rparr>, predicate = ()\<rparr>],
          bloom_filters = ([] :: unit list)\<rparr>)
   \<noteq> rewrite_in_filters
        [\<lparr>from_tuple_id = 1, from_slot_id = 1, to_tuple_id = 2, to_slot_id = 2\<rparr>,
         \<lparr>from_tuple_id = 2, from_slot_id = 2, to_tuple_id = 3, to_slot_id = 3\<rparr>]
        \<lparr>in_filters = [\<lparr>child0 = \<lparr>tuple_id = 3, slot_id = 3\<rparr>, predicate = ()\<rparr>],
          bloom_filters = ([] :: unit list)\<rparr>"
  by (simp add: rewrite_in_filter_def is_bound_def)

text \<open>
  C8, amended. When no mapping of the list has as its source coordinates
  \<open>(from_tuple_id, from_slot_id)\<close> the target coordinates \<open>(to_tuple_id, to_slot_id)\<close> of a
  mapping of the list, applying \<^verbatim>\<open>rewrite_in_filters\<close> twice with the list leaves the
  collector as applying it once does.
\<close>

theorem rewrite_in_filters_idempotent:
  assumes "\<forall>a \<in> set ms. \<forall>b \<in> set ms.
             (from_tuple_id a, from_slot_id a) \<noteq> (to_tuple_id b, to_slot_id b)"
  shows "rewrite_in_filters ms (rewrite_in_filters ms c) = rewrite_in_filters ms c"
  by (simp add: rewrite_in_filters_map[of ms] foldl_rewrite_idem[OF assms] comp_def)

text \<open>Two mappings onto tuple 1, and in-filters that the first, the second and no mapping matches.\<close>

theorem rewrite_in_filters_idempotent_witness:
  "rewrite_in_filters
     [\<lparr>from_tuple_id = 1, from_slot_id = 1, to_tuple_id = 2, to_slot_id = 2\<rparr>,
      \<lparr>from_tuple_id = 1, from_slot_id = 4, to_tuple_id = 3, to_slot_id = 3\<rparr>]
     (rewrite_in_filters
        [\<lparr>from_tuple_id = 1, from_slot_id = 1, to_tuple_id = 2, to_slot_id = 2\<rparr>,
         \<lparr>from_tuple_id = 1, from_slot_id = 4, to_tuple_id = 3, to_slot_id = 3\<rparr>]
        \<lparr>in_filters = [\<lparr>child0 = \<lparr>tuple_id = 3, slot_id = 3\<rparr>, predicate = ()\<rparr>,
                        \<lparr>child0 = \<lparr>tuple_id = 2, slot_id = 2\<rparr>, predicate = ()\<rparr>,
                        \<lparr>child0 = \<lparr>tuple_id = 2, slot_id = 5\<rparr>, predicate = ()\<rparr>],
          bloom_filters = ([] :: unit list)\<rparr>)
   = \<lparr>in_filters = [\<lparr>child0 = \<lparr>tuple_id = 1, slot_id = 4\<rparr>, predicate = ()\<rparr>,
                     \<lparr>child0 = \<lparr>tuple_id = 1, slot_id = 1\<rparr>, predicate = ()\<rparr>,
                     \<lparr>child0 = \<lparr>tuple_id = 2, slot_id = 5\<rparr>, predicate = ()\<rparr>],
       bloom_filters = ([] :: unit list)\<rparr>"
proof -
  let ?ms = "[\<lparr>from_tuple_id = 1, from_slot_id = 1, to_tuple_id = 2, to_slot_id = 2\<rparr>,
              \<lparr>from_tuple_id = 1, from_slot_id = 4, to_tuple_id = 3, to_slot_id = 3\<rparr>]"
  let ?c = "\<lparr>in_filters = [\<lparr>child0 = \<lparr>tuple_id = 3, slot_id = 3\<rparr>, predicate = ()\<rparr>,
                           \<lparr>child0 = \<lparr>tuple_id = 2, slot_id = 2\<rparr>, predicate = ()\<rparr>,
                           \<lparr>child0 = \<lparr>tuple_id = 2, slot_id = 5\<rparr>, predicate = ()\<rparr>],
             bloom_filters = ([] :: unit list)\<rparr>"
  have h: "\<forall>a \<in> set ?ms. \<forall>b \<in> set ?ms.
             (from_tuple_id a, from_slot_id a) \<noteq> (to_tuple_id b, to_slot_id b)"
    by simp
  have once: "rewrite_in_filters ?ms ?c =
      \<lparr>in_filters = [\<lparr>child0 = \<lparr>tuple_id = 1, slot_id = 4\<rparr>, predicate = ()\<rparr>,
                      \<lparr>child0 = \<lparr>tuple_id = 1, slot_id = 1\<rparr>, predicate = ()\<rparr>,
                      \<lparr>child0 = \<lparr>tuple_id = 2, slot_id = 5\<rparr>, predicate = ()\<rparr>],
        bloom_filters = ([] :: unit list)\<rparr>"
    by (simp add: rewrite_in_filter_def is_bound_def)
  from rewrite_in_filters_idempotent[OF h, of ?c] once show ?thesis by simp
qed

subsection \<open>RuntimeFilterHolder: single publication\<close>

lemma holder_run_no_set:
  "installed calls = [] \<Longrightarrow> holder_run h calls = replicate (length calls) (collector h)"
proof (induction calls)
  case Nil
  then show ?case by simp
next
  case (Cons a calls)
  then show ?case by (cases a) (simp_all add: get_collector_def)
qed

text \<open>With at most one store, the observations are nulls followed by the stored pointer.\<close>

lemma holder_run_shape:
  "length (installed calls) \<le> 1 \<Longrightarrow> collector h = None \<Longrightarrow>
   \<exists>a b. holder_run h calls = replicate a None @ replicate b (hd (installed calls))"
proof (induction calls)
  case Nil
  then show ?case by simp
next
  case (Cons x calls)
  show ?case
  proof (cases x)
    case (SetCollector c)
    with Cons.prems have "installed calls = []" by simp
    then have "holder_run h (x # calls) = replicate (length calls) c"
      using SetCollector by (simp add: holder_run_no_set set_collector_def)
    then have "holder_run h (x # calls) =
        replicate 0 None @ replicate (length calls) (hd (installed (x # calls)))"
      using SetCollector by simp
    then show ?thesis by blast
  next
    case GetCollector
    with Cons obtain a b where
      "holder_run h calls = replicate a None @ replicate b (hd (installed calls))"
      by auto
    then have "holder_run h (x # calls) =
        replicate (Suc a) None @ replicate b (hd (installed (x # calls)))"
      using GetCollector Cons.prems by (simp add: get_collector_def)
    then show ?thesis by blast
  qed
qed

lemma holder_run_installed:
  "x \<in> set (holder_run h calls) \<Longrightarrow> x \<noteq> collector h \<Longrightarrow> x \<in> set (installed calls)"
proof (induction calls arbitrary: h)
  case Nil
  then show ?case by simp
next
  case (Cons a calls)
  show ?case
  proof (cases a)
    case (SetCollector c)
    show ?thesis
    proof (cases "x = c")
      case True
      then show ?thesis using SetCollector by simp
    next
      case False
      then have "x \<noteq> collector (set_collector c h)" by (simp add: set_collector_def)
      moreover have "x \<in> set (holder_run (set_collector c h) calls)"
        using Cons.prems SetCollector by simp
      ultimately show ?thesis using Cons.IH SetCollector by simp
    qed
  next
    case GetCollector
    then show ?thesis using Cons by (auto simp: get_collector_def)
  qed
qed

text \<open>
  C7. Take any sequence of calls on a fresh holder in which \<^verbatim>\<open>set_collector\<close> is called at
  most once. Every \<^verbatim>\<open>get_collector\<close> then returns null or exactly the pointer that the one
  \<^verbatim>\<open>set_collector\<close> installed, and once an observation is not null, every later one
  returns the same pointer (so none returns null). The calls are taken in the order in which
  the atomic store and loads take effect; what else the acquire and release orderings
  make visible is outside the model.
\<close>

theorem holder_single_publication:
  assumes "length (installed calls) \<le> 1"
  shows "(\<forall>i < length (holder_run new_holder calls).
            holder_run new_holder calls ! i = None \<or>
            installed calls = [holder_run new_holder calls ! i]) \<and>
         (\<forall>i j. i \<le> j \<and> j < length (holder_run new_holder calls) \<and>
                holder_run new_holder calls ! i \<noteq> None
            \<longrightarrow> holder_run new_holder calls ! j = holder_run new_holder calls ! i)"
proof -
  let ?obs = "holder_run new_holder calls"
  have n: "collector (new_holder :: 'a RuntimeFilterHolder) = None"
    by (simp add: new_holder_def)
  obtain a b where s: "?obs = replicate a None @ replicate b (hd (installed calls))"
    using holder_run_shape[OF assms n] by blast
  have 1: "\<forall>i < length ?obs. ?obs ! i = None \<or> installed calls = [?obs ! i]"
  proof (intro allI impI)
    fix i assume i: "i < length ?obs"
    show "?obs ! i = None \<or> installed calls = [?obs ! i]"
    proof (cases "?obs ! i = None")
      case True
      then show ?thesis by simp
    next
      case False
      have "?obs ! i \<in> set ?obs" using i by simp
      then have "?obs ! i \<in> set (installed calls)"
        using holder_run_installed False n by metis
      with assms show ?thesis by (cases "installed calls") auto
    qed
  qed
  have 2: "\<forall>i j. i \<le> j \<and> j < length ?obs \<and> ?obs ! i \<noteq> None \<longrightarrow> ?obs ! j = ?obs ! i"
  proof (intro allI impI)
    fix i j assume h: "i \<le> j \<and> j < length ?obs \<and> ?obs ! i \<noteq> None"
    have len: "length ?obs = a + b" by (simp add: s)
    have "\<not> i < a"
    proof
      assume "i < a"
      then have "?obs ! i = None" by (simp add: s nth_append)
      with h show False by simp
    qed
    then have "i - a < b" "j - a < b" "\<not> j < a" "\<not> i < a" using h len by auto
    then show "?obs ! j = ?obs ! i"
      by (simp add: s nth_append)
  qed
  show ?thesis using 1 2 by blast
qed

text \<open>
  A reader before the store, the store of the pointer 5, then two readers: the second
  reader sees the pointer that was installed, and the third sees what the second saw.
\<close>

theorem holder_single_publication_witness:
  "length (installed [GetCollector, SetCollector (Some (5::nat)), GetCollector, GetCollector]) \<le> 1 \<and>
   (holder_run new_holder [GetCollector, SetCollector (Some (5::nat)), GetCollector, GetCollector] ! 1 = None \<or>
    installed [GetCollector, SetCollector (Some (5::nat)), GetCollector, GetCollector] =
      [holder_run new_holder [GetCollector, SetCollector (Some (5::nat)), GetCollector, GetCollector] ! 1]) \<and>
   holder_run new_holder [GetCollector, SetCollector (Some (5::nat)), GetCollector, GetCollector] ! 2 =
     holder_run new_holder [GetCollector, SetCollector (Some (5::nat)), GetCollector, GetCollector] ! 1"
proof -
  let ?calls = "[GetCollector, SetCollector (Some (5::nat)), GetCollector, GetCollector]"
  have h: "length (installed ?calls) \<le> 1" by simp
  have r: "holder_run new_holder ?calls = [None, Some 5, Some 5]"
    by (simp add: new_holder_def get_collector_def set_collector_def)
  note t = holder_single_publication[OF h]
  have a: "holder_run new_holder ?calls ! 1 = None \<or>
           installed ?calls = [holder_run new_holder ?calls ! 1]"
    using t r by simp
  have "1 \<le> (2::nat) \<and> 2 < length (holder_run new_holder ?calls) \<and>
        holder_run new_holder ?calls ! 1 \<noteq> None"
    using r by simp
  then have b: "holder_run new_holder ?calls ! 2 = holder_run new_holder ?calls ! 1"
    using t by blast
  show ?thesis using h a b by blast
qed

subsection \<open>RuntimeFilterHub: adding a holder twice\<close>

lemma add_holder_present: "holders hub n \<noteq> None \<Longrightarrow> add_holder n hub = hub"
  by (auto simp: add_holder_def Let_def split: option.splits)

lemma holders_add_holder: "holders (add_holder n hub) n \<noteq> None"
  by (auto simp: add_holder_def Let_def split: option.splits)

lemma holders_hub_set_collector:
  "hub_set_collector n c hub = Some hub1 \<Longrightarrow>
   holders hub1 = holders hub \<and> length (store hub1) = length (store hub)"
  by (auto simp: hub_set_collector_def split: option.splits)

lemma hub_get_after_set:
  "hub_set_collector n c hub = Some hub1 \<Longrightarrow> hub_get_collector n hub1 = Some c"
  by (auto simp: hub_set_collector_def hub_get_collector_def get_holder_def set_collector_def
      get_collector_def Let_def split: option.splits if_splits)

text \<open>
  C10. \<^verbatim>\<open>add_holder\<close> is idempotent: a second call with the same plan node id leaves the
  hub as the first call left it, since \<^verbatim>\<open>emplace\<close> does nothing for a key that is present.
  Also after the collector of that id has been set, another \<^verbatim>\<open>add_holder\<close> changes nothing:
  \<^verbatim>\<open>gather_holders\<close> resolves the id to the holder of the first call, and that holder
  still publishes the collector.
\<close>

theorem add_holder_idempotent:
  "add_holder n (add_holder n hub) = add_holder n hub \<and>
   (\<forall>c hub1. hub_set_collector n c (add_holder n hub) = Some hub1 \<longrightarrow>
       add_holder n hub1 = hub1 \<and>
       hub_get_collector n (add_holder n hub1) = Some c \<and>
       gather_holders [n] (add_holder n hub1) = gather_holders [n] (add_holder n hub))"
proof (intro conjI allI impI)
  show "add_holder n (add_holder n hub) = add_holder n hub"
    by (rule add_holder_present) (rule holders_add_holder)
next
  fix c hub1 assume a: "hub_set_collector n c (add_holder n hub) = Some hub1"
  have h: "holders hub1 n \<noteq> None"
    using holders_hub_set_collector[OF a] holders_add_holder[of n hub] by simp
  show e: "add_holder n hub1 = hub1" by (rule add_holder_present[OF h])
  show "hub_get_collector n (add_holder n hub1) = Some c"
    using hub_get_after_set[OF a] e by simp
  show "gather_holders [n] (add_holder n hub1) = gather_holders [n] (add_holder n hub)"
    using holders_hub_set_collector[OF a] e
    by (auto simp: get_holder_def split: option.splits)
qed

text \<open>
  On an empty hub: the holder of plan node 7 is added, its collector is set to the
  pointer 1, and the holder is added again.
\<close>

theorem add_holder_idempotent_witness:
  "hub_set_collector 7 (Some (1::nat)) (add_holder 7 new_hub) =
     Some \<lparr>holders = [7 \<mapsto> 0], store = [\<lparr>collector_ownership = Some 1, collector = Some 1\<rparr>]\<rparr> \<and>
   add_holder 7 \<lparr>holders = [7 \<mapsto> 0], store = [\<lparr>collector_ownership = Some (1::nat), collector = Some 1\<rparr>]\<rparr> =
     \<lparr>holders = [7 \<mapsto> 0], store = [\<lparr>collector_ownership = Some 1, collector = Some 1\<rparr>]\<rparr> \<and>
   hub_get_collector 7
     (add_holder 7 \<lparr>holders = [7 \<mapsto> 0], store = [\<lparr>collector_ownership = Some (1::nat), collector = Some 1\<rparr>]\<rparr>) =
     Some (Some 1)"
proof -
  let ?hub1 = "\<lparr>holders = [7 \<mapsto> 0], store = [\<lparr>collector_ownership = Some (1::nat), collector = Some 1\<rparr>]\<rparr>"
  have a: "hub_set_collector 7 (Some (1::nat)) (add_holder 7 new_hub) = Some ?hub1"
    by (simp add: hub_set_collector_def add_holder_def new_hub_def get_holder_def
        set_collector_def new_holder_def Let_def)
  from add_holder_idempotent[of 7 new_hub] a
  have "add_holder 7 ?hub1 = ?hub1 \<and> hub_get_collector 7 (add_holder 7 ?hub1) = Some (Some 1)"
    by blast
  with a show ?thesis by blast
qed

subsection \<open>RefCountedRuntimeFilterProbeCollector\<close>

text \<open>The two halves of the counter, read as numbers.\<close>

lemma unat_and_mask_32: "unat (w AND mask 32 :: size_t) = unat w mod 2 ^ 32"
  by (simp flip: take_bit_eq_mask add: take_bit_eq_mod unat_mod)

lemma take_bit_32_small: "unat (n :: size_t) < 2 ^ 32 \<Longrightarrow> take_bit 32 n = n"
  by (simp add: word_unat_eq_iff take_bit_eq_mod unat_mod)

lemma bit_small_lt_32: "unat (n :: size_t) < 2 ^ 32 \<Longrightarrow> bit n k \<Longrightarrow> k < 32"
proof -
  assume a: "unat n < 2 ^ 32" and b: "bit n k"
  have "bit (take_bit 32 n) k" using take_bit_32_small[OF a] b by simp
  then show ?thesis by (simp add: bit_take_bit_iff)
qed

lemma unat_push_bit_plus: "unat (n::size_t) < 2 ^ 32 \<Longrightarrow> unat (push_bit 32 n + n) = unat n * 2 ^ 32 + unat n"
proof -
  assume a: "unat n < 2 ^ 32"
  then have "unat n * 2 ^ 32 + unat n < 2 ^ 64" by simp
  then show ?thesis
    by (simp add: push_bit_eq_mult unat_word_ariths)
qed

lemma push_bit_or_plus: "push_bit 32 n AND n = 0 \<Longrightarrow> push_bit 32 n OR n = push_bit 32 n + (n::size_t)"
  by (simp add: disjunctive_add_eq_or)

lemma unat_sub_k: "2 ^ 32 \<le> unat (w::size_t) \<Longrightarrow> unat (w - push_bit 32 1) = unat w - 2 ^ 32"
  by (simp add: unat_sub word_le_nat_alt)

lemma push_bit_and_zero: "unat (n :: size_t) < 2 ^ 32 \<Longrightarrow> push_bit 32 n AND n = 0"
proof (rule bit_eqI)
  fix k
  assume a: "unat n < 2 ^ 32"
  have "bit n k \<Longrightarrow> k < 32" by (rule bit_small_lt_32[OF a])
  then show "bit (push_bit 32 n AND n) k = bit (0 :: size_t) k"
    by (auto simp: bit_and_iff bit_push_bit_iff)
qed

lemma unat_new_count:
  assumes "unat (n :: size_t) < 2 ^ 32"
  shows "unat (push_bit 32 n OR n) = unat n * 2 ^ 32 + unat n"
  using push_bit_or_plus[OF push_bit_and_zero[OF assms]] unat_push_bit_plus[OF assms] by simp

lemma low_mask: "(0xffffffff :: size_t) = mask 32"
  by (simp add: mask_eq_exp_minus_1)

lemma unat_low_half:
  assumes "unat (w :: size_t) = c * 2 ^ 32 + p" "p < 2 ^ 32"
  shows "unat (w AND 0xffffffff) = p"
  using assms by (simp add: low_mask unat_and_mask_32)

lemma prepare_step:
  assumes "unat (count rc) = c * 2 ^ 32 + p" "0 < p" "p \<le> N" "N < 2 ^ 32"
    "unat (num_operators_generated rc) = N"
  shows "unat (count (snd (prepare rc))) = c * 2 ^ 32 + (p - 1)"
    and "num_operators_generated (snd (prepare rc)) = num_operators_generated rc"
    and "times_run WrappedClose (snd (prepare rc)) = times_run WrappedClose rc"
    and "times_run WrappedPrepare (snd (prepare rc)) = times_run WrappedPrepare rc + (if p = N then 1 else 0)"
    and "times_run WrappedOpen (snd (prepare rc)) \<le> times_run WrappedOpen rc + (if p = N then 1 else 0)"
proof -
  have nz: "count rc \<noteq> 0"
  proof
    assume "count rc = 0"
    then have "unat (count rc) = 0" by simp
    with assms(1,2) show False by simp
  qed
  have dec: "unat (count rc - 1) = c * 2 ^ 32 + (p - 1)"
    using assms(1,2) nz by (simp add: unat_minus_one)
  have low: "unat (count rc AND 0xffffffff) = p"
    using assms by (intro unat_low_half[where c = c]) auto
  have first: "(count rc AND 0xffffffff = num_operators_generated rc) = (p = N)"
    using low assms(5) by (auto simp: word_unat_eq_iff)
  have cnt: "count (snd (prepare rc)) = count rc - 1"
    by (simp add: prepare_def Let_def)
  show "unat (count (snd (prepare rc))) = c * 2 ^ 32 + (p - 1)"
    unfolding cnt by (rule dec)
  show "num_operators_generated (snd (prepare rc)) = num_operators_generated rc"
    by (simp add: prepare_def Let_def log_event_def)
  show "times_run WrappedClose (snd (prepare rc)) = times_run WrappedClose rc"
    by (simp add: prepare_def Let_def log_event_def times_run_def)
  show "times_run WrappedPrepare (snd (prepare rc)) = times_run WrappedPrepare rc + (if p = N then 1 else 0)"
    using first by (simp add: prepare_def Let_def log_event_def times_run_def)
  show "times_run WrappedOpen (snd (prepare rc)) \<le> times_run WrappedOpen rc + (if p = N then 1 else 0)"
    using first by (simp add: prepare_def Let_def log_event_def times_run_def)
qed

lemma close_step:
  assumes "unat (count rc) = c * 2 ^ 32 + p" "0 < c" "p < 2 ^ 32"
  shows "unat (count (close rc)) = (c - 1) * 2 ^ 32 + p"
    and "num_operators_generated (close rc) = num_operators_generated rc"
    and "times_run WrappedClose (close rc) = times_run WrappedClose rc + (if c = 1 \<and> p = 0 then 1 else 0)"
    and "times_run WrappedPrepare (close rc) = times_run WrappedPrepare rc"
    and "times_run WrappedOpen (close rc) = times_run WrappedOpen rc"
proof -
  have ge: "2 ^ 32 \<le> unat (count rc)" using assms(1,2) by (cases c) auto
  have dec: "unat (count rc - push_bit 32 1) = (c - 1) * 2 ^ 32 + p"
    using unat_sub_k[OF ge] assms(1,2) by (cases c) auto
  have "(unat (count rc) = unat (push_bit 32 1 :: size_t)) = (c = 1 \<and> p = 0)"
  proof
    assume "unat (count rc) = unat (push_bit 32 1 :: size_t)"
    then have e: "c * 2 ^ 32 + p = 2 ^ 32" using assms(1) by simp
    then have "c = 1" using assms(2,3) by (cases c; cases "c - 1") auto
    with e show "c = 1 \<and> p = 0" by simp
  next
    assume "c = 1 \<and> p = 0"
    then show "unat (count rc) = unat (push_bit 32 1 :: size_t)" using assms(1) by simp
  qed
  then have last: "(count rc = push_bit 32 1) = (c = 1 \<and> p = 0)"
    by (simp only: word_unat_eq_iff)
  have cnt: "count (close rc) = count rc - push_bit 32 1"
    by (simp add: close_def Let_def)
  show "unat (count (close rc)) = (c - 1) * 2 ^ 32 + p"
    unfolding cnt by (rule dec)
  show "num_operators_generated (close rc) = num_operators_generated rc"
    by (simp add: close_def Let_def log_event_def)
  show "times_run WrappedClose (close rc) = times_run WrappedClose rc + (if c = 1 \<and> p = 0 then 1 else 0)"
    using last by (simp add: close_def Let_def log_event_def times_run_def)
  show "times_run WrappedPrepare (close rc) = times_run WrappedPrepare rc"
    by (simp add: close_def Let_def log_event_def times_run_def)
  show "times_run WrappedOpen (close rc) = times_run WrappedOpen rc"
    by (simp add: close_def Let_def log_event_def times_run_def)
qed

lemma ref_counted_run_inv:
  assumes "unat (count rc) = c * 2 ^ 32 + p" "p \<le> N" "N < 2 ^ 32"
    "unat (num_operators_generated rc) = N"
    "count_list calls Prepare \<le> p" "count_list calls Close \<le> c"
  shows "unat (count (ref_counted_run rc calls)) =
           (c - count_list calls Close) * 2 ^ 32 + (p - count_list calls Prepare) \<and>
         times_run WrappedPrepare (ref_counted_run rc calls) \<le>
           times_run WrappedPrepare rc + (if p = N then 1 else 0) \<and>
         times_run WrappedOpen (ref_counted_run rc calls) \<le>
           times_run WrappedOpen rc + (if p = N then 1 else 0) \<and>
         times_run WrappedClose (ref_counted_run rc calls) \<le>
           times_run WrappedClose rc + (if 0 < c then 1 else 0) \<and>
         (count_list calls Close < c \<longrightarrow>
           times_run WrappedClose (ref_counted_run rc calls) = times_run WrappedClose rc)"
  using assms
proof (induction calls arbitrary: rc c p)
  case Nil
  then show ?case by simp
next
  case (Cons x calls)
  show ?case
  proof (cases x)
    case Prepare
    let ?rc = "snd (prepare rc)"
    have p0: "0 < p" using Cons.prems(5) Prepare by simp
    note s = prepare_step[OF Cons.prems(1) p0 Cons.prems(2,3,4)]
    have pre: "unat (count ?rc) = c * 2 ^ 32 + (p - 1)" "p - 1 \<le> N" "N < 2 ^ 32"
      "unat (num_operators_generated ?rc) = N"
      "count_list calls Prepare \<le> p - 1" "count_list calls Close \<le> c"
      using s Cons.prems Prepare by auto
    have nN: "p - 1 \<noteq> N" using p0 Cons.prems(2) by simp
    from Cons.IH[OF pre] nN s show ?thesis
      using Prepare by auto
  next
    case Close
    let ?rc = "close rc"
    have c0: "0 < c" using Cons.prems(6) Close by simp
    have pl: "p < 2 ^ 32" using Cons.prems(2,3) by simp
    note s = close_step[OF Cons.prems(1) c0 pl]
    have pre: "unat (count ?rc) = (c - 1) * 2 ^ 32 + p" "p \<le> N" "N < 2 ^ 32"
      "unat (num_operators_generated ?rc) = N"
      "count_list calls Prepare \<le> p" "count_list calls Close \<le> c - 1"
      using s Cons.prems Close by auto
    from Cons.IH[OF pre] s show ?thesis
      using Close c0 by (auto split: if_splits)
  qed
qed

lemma ref_counted_run_append:
  "ref_counted_run rc (xs @ ys) = ref_counted_run (ref_counted_run rc xs) ys"
proof (induction xs arbitrary: rc)
  case Nil
  then show ?case by simp
next
  case (Cons x xs)
  then show ?case by (cases x) simp_all
qed

lemma new_ref_counted_inv:
  assumes "unat n < 2 ^ 32"
  shows "unat (count (new_ref_counted n pc)) = unat n * 2 ^ 32 + unat n"
    and "unat (num_operators_generated (new_ref_counted n pc)) = unat n"
    and "times_run e (new_ref_counted n pc) = length (filter (\<lambda>x. x = e) (events pc))"
  using unat_new_count[OF assms] by (simp_all add: new_ref_counted_def times_run_def)

text \<open>
  For fewer than \<open>2^32\<close> siblings, at most that many calls of \<^verbatim>\<open>prepare\<close> and at most that
  many calls of \<^verbatim>\<open>close\<close>, in any order, the wrapped \<^verbatim>\<open>prepare\<close>, \<^verbatim>\<open>open\<close> and \<^verbatim>\<open>close\<close> run
  at most once each.
\<close>

lemma ref_counted_at_most_once:
  assumes "unat n < 2 ^ 32" "events pc = []"
    "count_list calls Prepare \<le> unat n" "count_list calls Close \<le> unat n"
  shows "times_run WrappedPrepare (ref_counted_run (new_ref_counted n pc) calls) \<le> 1 \<and>
         times_run WrappedOpen (ref_counted_run (new_ref_counted n pc) calls) \<le> 1 \<and>
         times_run WrappedClose (ref_counted_run (new_ref_counted n pc) calls) \<le> 1"
proof -
  note i = new_ref_counted_inv[OF assms(1), where pc = pc]
  from ref_counted_run_inv[OF i(1) _ assms(1) i(2) assms(3,4)] i(3) assms(2)
  show ?thesis by (auto split: if_splits)
qed

text \<open>
  When all siblings have called \<^verbatim>\<open>prepare\<close> and all but one have called \<^verbatim>\<open>close\<close>, the
  wrapped \<^verbatim>\<open>close\<close> has not run, and the next \<^verbatim>\<open>close\<close> runs it.
\<close>

lemma ref_counted_close_after_all_prepares:
  assumes "unat n < 2 ^ 32" "events pc = []"
    "count_list calls Prepare = unat n" "count_list calls Close + 1 = unat n"
  shows "times_run WrappedClose (ref_counted_run (new_ref_counted n pc) calls) = 0 \<and>
         times_run WrappedClose (ref_counted_run (new_ref_counted n pc) (calls @ [Close])) = 1"
proof -
  note i = new_ref_counted_inv[OF assms(1), where pc = pc]
  let ?rc = "ref_counted_run (new_ref_counted n pc) calls"
  have a: "count_list calls Prepare \<le> unat n" "count_list calls Close \<le> unat n"
    "count_list calls Close < unat n"
    using assms(3,4) by simp_all
  from ref_counted_run_inv[OF i(1) _ assms(1) i(2) a(1,2)] a(3)
  have c: "unat (count ?rc) = (unat n - count_list calls Close) * 2 ^ 32 + (unat n - count_list calls Prepare)"
    and z: "times_run WrappedClose ?rc = times_run WrappedClose (new_ref_counted n pc)"
    by simp_all
  have c1: "unat (count ?rc) = 1 * 2 ^ 32 + 0" using c assms(3,4) by simp
  have z0: "times_run WrappedClose ?rc = 0" using z i(3) assms(2) by simp
  have "times_run WrappedClose (close ?rc) = times_run WrappedClose ?rc + (if (1::nat) = 1 \<and> (0::nat) = 0 then 1 else 0)"
    by (rule close_step(3)[OF c1]) simp_all
  then show ?thesis using z0 by (simp add: ref_counted_run_append)
qed

text \<open>
  C4. The claim asks that, with at least one \<^verbatim>\<open>prepare\<close> and exactly N calls of
  \<^verbatim>\<open>close\<close>, the wrapped \<^verbatim>\<open>close\<close> runs exactly once. \<^verbatim>\<open>close\<close> compares the whole
  counter with \<open>2^32\<close>, so the half that counts the calls of \<^verbatim>\<open>prepare\<close> must have reached
  zero as well. For four siblings, two calls of \<^verbatim>\<open>prepare\<close> and then four calls of \<^verbatim>\<open>close\<close>,
  the wrapped \<^verbatim>\<open>prepare\<close> and \<^verbatim>\<open>open\<close> run once and the wrapped \<^verbatim>\<open>close\<close> never runs.
\<close>

theorem ref_counted_close_never_runs:
  "(let rc = ref_counted_run
               (new_ref_counted 4 \<lparr>prepare_status = OK, open_status = OK, events = []\<rparr>)
               [Prepare, Prepare, Close, Close, Close, Close]
    in times_run WrappedPrepare rc = 1 \<and> times_run WrappedOpen rc = 1 \<and>
       times_run WrappedClose rc = 0 \<and> count rc = 2)"
  by (simp add: new_ref_counted_def prepare_def close_def log_event_def times_run_def Let_def)

text \<open>When all four siblings call \<^verbatim>\<open>prepare\<close> first, the fourth \<^verbatim>\<open>close\<close> runs the wrapped one.\<close>

lemma ref_counted_all_prepared:
  "events (rf_probe_collector (ref_counted_run
      (new_ref_counted 4 \<lparr>prepare_status = OK, open_status = OK, events = []\<rparr>)
      [Prepare, Prepare, Prepare, Prepare, Close, Close, Close, Close])) =
   [WrappedPrepare, WrappedOpen, WrappedClose]"
  by (simp add: new_ref_counted_def prepare_def close_def log_event_def Let_def)

subsection \<open>PartialRuntimeFilterMerger\<close>

lemma squeeze_break:
  assumes "length pif = length hts" "i \<le> j" "j < length hts" "hts ! j \<noteq> 0" "pif ! j = []" "k < int i"
  shows "\<exists>n k1 pif1. squeeze hts i (can, num, k, pif) = Some (False, n, k1, pif1) \<and> length pif1 = length hts"
  using assms
proof (induction "j - i" arbitrary: i num k pif)
  case 0
  then have "i = j" by simp
  with 0 show ?case by (simp add: squeeze.simps)
next
  case (Suc d)
  then have ij: "i < j" by simp
  show ?case
  proof (cases "hts ! i = 0")
    case True
    have "\<exists>n k1 pif1. squeeze hts (Suc i) (can, num, k, pif) = Some (False, n, k1, pif1) \<and> length pif1 = length hts"
      using Suc.hyps(1)[of "Suc i" pif k num] Suc.hyps(2) Suc.prems ij by simp
    then show ?thesis using True Suc.prems ij by (simp add: squeeze.simps)
  next
    case False
    show ?thesis
    proof (cases "pif ! i = []")
      case True
      then show ?thesis using False Suc.prems ij by (simp add: squeeze.simps)
    next
      case nonempty: False
      let ?k1 = "k + 1"
      let ?pif1 = "if ?k1 < int i then pif[nat ?k1 := pif ! i, i := []] else pif"
      have a: "length ?pif1 = length hts" using Suc.prems by simp
      have b: "?pif1 ! j = []" using Suc.prems ij by (auto simp: nth_list_update)
      have c: "?k1 < int (Suc i)" using Suc.prems by simp
      have "\<exists>n k1 pif1. squeeze hts (Suc i) (can, max num (hts ! i), ?k1, ?pif1) = Some (False, n, k1, pif1) \<and> length pif1 = length hts"
        using Suc.hyps(1)[of "Suc i" ?pif1 ?k1 "max num (hts ! i)"] Suc.hyps(2) Suc.prems(3,4) ij a b c by simp
      then show ?thesis using False nonempty Suc.prems ij by (simp add: squeeze.simps Let_def)
    qed
  qed
qed

lemma foldl_max_zero: "foldl max (max num (0::size_t)) xs = foldl max num xs"
  by (simp add: max_def)

lemma retained_Cons:
  "retained (c # hts) (l # pif) = (if c = 0 then retained hts pif else l # retained hts pif)"
  by (simp add: retained_def)

lemma squeeze_all:
  assumes "length pif = length hts" "i \<le> length hts" "- 1 \<le> k" "k < int i"
      and "\<forall>j. i \<le> j \<and> j < length hts \<and> hts ! j \<noteq> 0 \<longrightarrow> pif ! j \<noteq> []"
  shows "\<exists>pif1. squeeze hts i (can, num, k, pif) =
            Some (can, foldl max num (drop i hts),
                  k + int (length (retained (drop i hts) (drop i pif))), pif1) \<and>
          length pif1 = length hts \<and>
          take (nat (k + 1) + length (retained (drop i hts) (drop i pif))) pif1 =
            take (nat (k + 1)) pif @ retained (drop i hts) (drop i pif)"
  using assms
proof (induction "length hts - i" arbitrary: i num k pif)
  case 0
  then have "i = length hts" by simp
  with 0 show ?case by (simp add: squeeze.simps retained_def)
next
  case (Suc d)
  then have il: "i < length hts" by simp
  then have ip: "i < length pif" using Suc.prems by simp
  have dh: "drop i hts = hts ! i # drop (Suc i) hts" using il by (simp add: Cons_nth_drop_Suc)
  have dp: "drop i pif = pif ! i # drop (Suc i) pif" using ip by (simp add: Cons_nth_drop_Suc)
  show ?case
  proof (cases "hts ! i = 0")
    case True
    have "\<exists>pif1. squeeze hts (Suc i) (can, num, k, pif) =
            Some (can, foldl max num (drop (Suc i) hts),
                  k + int (length (retained (drop (Suc i) hts) (drop (Suc i) pif))), pif1) \<and>
          length pif1 = length hts \<and>
          take (nat (k + 1) + length (retained (drop (Suc i) hts) (drop (Suc i) pif))) pif1 =
            take (nat (k + 1)) pif @ retained (drop (Suc i) hts) (drop (Suc i) pif)"
      using Suc.hyps(1)[of "Suc i" pif k num] Suc.hyps(2) Suc.prems il by simp
    then show ?thesis using True il ip
      by (simp add: squeeze.simps[of hts i] dh dp retained_Cons foldl_max_zero)
  next
    case False
    then have ne: "pif ! i \<noteq> []" using Suc.prems il by simp
    let ?k1 = "k + 1"
    let ?pif1 = "if ?k1 < int i then pif[nat ?k1 := pif ! i, i := []] else pif"
    have a: "length ?pif1 = length hts" using Suc.prems by simp
    have b: "\<forall>j. Suc i \<le> j \<and> j < length hts \<and> hts ! j \<noteq> 0 \<longrightarrow> ?pif1 ! j \<noteq> []"
      using Suc.prems by (auto simp: nth_list_update)
    have d1: "drop (Suc i) ?pif1 = drop (Suc i) pif" using Suc.prems by auto
    have t1: "take (nat (?k1 + 1)) ?pif1 = take (nat (k + 1)) pif @ [pif ! i]"
    proof (cases "?k1 < int i")
      case True
      have n: "nat (?k1 + 1) = Suc (nat ?k1)" using Suc.prems by simp
      have lt: "nat ?k1 < length pif" using True ip Suc.prems by simp
      have "take (Suc (nat ?k1)) (pif[nat ?k1 := pif ! i, i := []]) = take (Suc (nat ?k1)) (pif[nat ?k1 := pif ! i])"
        using True Suc.prems by simp
      also have "\<dots> = take (nat ?k1) pif @ [pif ! i]"
        using lt by (simp add: take_Suc_conv_app_nth)
      finally show ?thesis using True n by simp
    next
      case False
      then have "?k1 = int i" using Suc.prems by simp
      then have "nat (?k1 + 1) = Suc i" "nat (k + 1) = i" by simp_all
      then show ?thesis using False ip by (simp add: take_Suc_conv_app_nth)
    qed
    have "\<exists>pif2. squeeze hts (Suc i) (can, max num (hts ! i), ?k1, ?pif1) =
            Some (can, foldl max (max num (hts ! i)) (drop (Suc i) hts),
                  ?k1 + int (length (retained (drop (Suc i) hts) (drop (Suc i) ?pif1))), pif2) \<and>
          length pif2 = length hts \<and>
          take (nat (?k1 + 1) + length (retained (drop (Suc i) hts) (drop (Suc i) ?pif1))) pif2 =
            take (nat (?k1 + 1)) ?pif1 @ retained (drop (Suc i) hts) (drop (Suc i) ?pif1)"
      using Suc.hyps(1)[of "Suc i" ?pif1 ?k1 "max num (hts ! i)"] Suc.hyps(2) Suc.prems(2,3,4) il a b by simp
    then obtain pif2 where
      s: "squeeze hts (Suc i) (can, max num (hts ! i), ?k1, ?pif1) =
            Some (can, foldl max (max num (hts ! i)) (drop (Suc i) hts),
                  ?k1 + int (length (retained (drop (Suc i) hts) (drop (Suc i) pif))), pif2)"
      and l: "length pif2 = length hts"
      and t: "take (nat (?k1 + 1) + length (retained (drop (Suc i) hts) (drop (Suc i) pif))) pif2 =
            take (nat (k + 1)) pif @ [pif ! i] @ retained (drop (Suc i) hts) (drop (Suc i) pif)"
      unfolding d1 t1 by auto
    define R where "R = retained (drop (Suc i) hts) (drop (Suc i) pif)"
    have r: "retained (drop i hts) (drop i pif) = pif ! i # R"
      using False by (simp add: dh dp retained_Cons R_def)
    have n2: "nat (k + 1) + length (pif ! i # R) = nat (?k1 + 1) + length R"
      using Suc.prems by simp
    have k2: "k + int (length (pif ! i # R)) = ?k1 + int (length R)" by simp
    have f2: "foldl max num (drop i hts) = foldl max (max num (hts ! i)) (drop (Suc i) hts)"
      by (simp add: dh)
    have "squeeze hts i (can, num, k, pif) = squeeze hts (Suc i) (can, max num (hts ! i), ?k1, ?pif1)"
      using False ne il ip by (simp add: squeeze.simps[of hts i] Let_def)
    then have "squeeze hts i (can, num, k, pif) =
        Some (can, foldl max num (drop i hts), k + int (length (pif ! i # R)), pif2)"
      using s by (simp add: f2 R_def)
    moreover have "take (nat (?k1 + 1) + length R) pif2 = take (nat (k + 1)) pif @ (pif ! i # R)"
      using t by (simp add: R_def)
    then have "take (nat (k + 1) + length (pif ! i # R)) pif2 = take (nat (k + 1)) pif @ (pif ! i # R)"
      by (simp only: n2)
    ultimately show ?thesis using l unfolding r by blast
  qed
qed


lemma foldl_max_ge_init: "(a::size_t) \<le> foldl max a xs"
proof (induction xs arbitrary: a)
  case Nil
  then show ?case by simp
next
  case (Cons x xs)
  have "a \<le> max a x" by simp
  also have "\<dots> \<le> foldl max (max a x) xs" by (rule Cons.IH)
  finally show ?case by simp
qed

lemma foldl_max_ge: "x \<in> set xs \<Longrightarrow> (x::size_t) \<le> foldl max a xs"
proof (induction xs arbitrary: a)
  case Nil
  then show ?case by simp
next
  case (Cons y ys)
  show ?case
  proof (cases "x = y")
    case True
    have "x \<le> max a y" using True by simp
    also have "\<dots> \<le> foldl max (max a y) ys" by (rule foldl_max_ge_init)
    finally show ?thesis by simp
  next
    case False
    then show ?thesis using Cons by simp
  qed
qed

lemma foldl_max_le: "a \<le> b \<Longrightarrow> \<forall>x \<in> set xs. x \<le> b \<Longrightarrow> foldl max a xs \<le> (b::size_t)"
  by (induction xs arbitrary: a) simp_all

lemma retained_all_zero: "\<forall>c \<in> set hts. c = 0 \<Longrightarrow> retained hts pif = []"
  by (auto simp: retained_def filter_empty_conv dest: set_zip_leftD)

lemma get_total_in_filters_update:
  "pif \<noteq> [] \<Longrightarrow> get_total_in_filters (m\<lparr>partial_in_filters := pif[0 := l]\<rparr>) = Some l"
  by (cases pif) (simp_all add: get_total_in_filters_def)

lemma merge_bloom_filters_in_filters:
  "merge_bloom_filters h m = Some (st, m1) \<Longrightarrow> partial_in_filters m1 = partial_in_filters m"
  by (auto simp: merge_bloom_filters_def split: if_splits option.splits)

text \<open>
  C1. Take a merger with at least one builder, all of whose slots are filled. If some
  builder with a non-empty hash table handed over an empty in-filter list, or some
  builder's row count exceeds 1024, or every hash table is empty, then \<^verbatim>\<open>merge_in_filters\<close>
  returns success with the list of slot 0 cleared, and \<^verbatim>\<open>get_total_in_filters\<close> returns the
  empty list, also after \<^verbatim>\<open>merge_bloom_filters\<close> has run. The bound 1024 is the constant
  of the code; the \<open>limit\<close> of the merger is arbitrary here.
\<close>

theorem merge_in_filters_abort:
  assumes len: "length (partial_in_filters m) = length (ht_row_counts m)"
      and ne: "ht_row_counts m \<noteq> []"
      and ab: "(\<exists>i < length (ht_row_counts m). ht_row_counts m ! i \<noteq> 0 \<and> partial_in_filters m ! i = []) \<or>
               (\<exists>i < length (ht_row_counts m). 1024 < ht_row_counts m ! i) \<or>
               (\<forall>i < length (ht_row_counts m). ht_row_counts m ! i = 0)"
  shows "\<exists>m1. merge_in_filters pmerge m = Some (OK, m1) \<and> get_total_in_filters m1 = Some [] \<and>
           (\<forall>h st m2. merge_bloom_filters h m1 = Some (st, m2) \<longrightarrow> get_total_in_filters m2 = Some [])"
proof -
  let ?hts = "ht_row_counts m" and ?pif = "partial_in_filters m"
  have "\<exists>can n k pif1. squeeze ?hts 0 (True, 0, - 1, ?pif) = Some (can, n, k, pif1) \<and>
          length pif1 = length ?hts \<and> \<not> (can \<and> n \<le> 1024 \<and> k \<ge> 0)"
  proof (cases "\<exists>i < length ?hts. ?hts ! i \<noteq> 0 \<and> ?pif ! i = []")
    case True
    then obtain j where "j < length ?hts" "?hts ! j \<noteq> 0" "?pif ! j = []" by blast
    then show ?thesis using squeeze_break[of ?pif ?hts 0 j "- 1" True 0] len by auto
  next
    case False
    then have nb: "\<forall>j. 0 \<le> j \<and> j < length ?hts \<and> ?hts ! j \<noteq> 0 \<longrightarrow> ?pif ! j \<noteq> []" by blast
    obtain pif1 where s: "squeeze ?hts 0 (True, 0, - 1, ?pif) =
         Some (True, foldl max 0 ?hts, - 1 + int (length (retained ?hts ?pif)), pif1)"
      and l: "length pif1 = length ?hts"
      using squeeze_all[OF len _ _ _ nb, of "- 1" True 0] by auto
    from ab False consider (big) "\<exists>i < length ?hts. 1024 < ?hts ! i" | (zero) "\<forall>i < length ?hts. ?hts ! i = 0"
      by blast
    then have "\<not> (foldl max 0 ?hts \<le> 1024 \<and> - 1 + int (length (retained ?hts ?pif)) \<ge> 0)"
    proof cases
      case big
      then obtain i where i: "i < length ?hts" "1024 < ?hts ! i" by blast
      then have "?hts ! i \<le> foldl max 0 ?hts" by (intro foldl_max_ge) simp
      with i show ?thesis by auto
    next
      case zero
      then have "\<forall>c \<in> set ?hts. c = 0" by (auto simp: in_set_conv_nth)
      then show ?thesis by (simp add: retained_all_zero)
    qed
    with s l show ?thesis by auto
  qed
  then obtain can n k pif1 where s: "squeeze ?hts 0 (True, 0, - 1, ?pif) = Some (can, n, k, pif1)"
    and l: "length pif1 = length ?hts" and c: "\<not> (can \<and> n \<le> 1024 \<and> k \<ge> 0)" by blast
  have p: "pif1 \<noteq> []" using l ne by auto
  let ?m1 = "m\<lparr>partial_in_filters := pif1[0 := []]\<rparr>"
  have 1: "merge_in_filters pmerge m = Some (OK, ?m1)"
    using s c p by (simp add: merge_in_filters_def)
  have 2: "get_total_in_filters ?m1 = Some []" by (rule get_total_in_filters_update[OF p])
  have 3: "\<forall>h st m2. merge_bloom_filters h ?m1 = Some (st, m2) \<longrightarrow> get_total_in_filters m2 = Some []"
    using 2 by (auto simp: get_total_in_filters_def dest!: merge_bloom_filters_in_filters)
  show ?thesis using 1 2 3 by blast
qed

text \<open>
  Two builders with 500 rows each; the second one hands over no in-filter (scenario S3 of
  the specification).
\<close>

theorem merge_in_filters_abort_witness:
  "\<exists>m1. merge_in_filters (\<lambda>a b. (OK, a @ b))
          (\<lparr>limit = 1024, num_active_builders = 0, ht_row_counts = [500, 500],
            partial_in_filters = [[Some [1::int]], []],
            partial_bloom_filter_build_params = [[], []],
            bloom_filter_descriptors = []\<rparr> :: (int list, unit, unit, unit, unit) PartialRuntimeFilterMerger)
        = Some (OK, m1) \<and> get_total_in_filters m1 = Some []"
proof -
  let ?m = "\<lparr>limit = 1024, num_active_builders = 0, ht_row_counts = [500, 500],
             partial_in_filters = [[Some [1::int]], []],
             partial_bloom_filter_build_params = [[], []],
             bloom_filter_descriptors = []\<rparr> :: (int list, unit, unit, unit, unit) PartialRuntimeFilterMerger"
  have 1: "length (partial_in_filters ?m) = length (ht_row_counts ?m)" by simp
  have 2: "ht_row_counts ?m \<noteq> []" by simp
  have "1 < length (ht_row_counts ?m) \<and> ht_row_counts ?m ! 1 \<noteq> 0 \<and> partial_in_filters ?m ! 1 = []"
    by simp
  then have 3: "(\<exists>i < length (ht_row_counts ?m). ht_row_counts ?m ! i \<noteq> 0 \<and> partial_in_filters ?m ! i = []) \<or>
                (\<exists>i < length (ht_row_counts ?m). 1024 < ht_row_counts ?m ! i) \<or>
                (\<forall>i < length (ht_row_counts ?m). ht_row_counts ?m ! i = 0)"
    by blast
  from merge_in_filters_abort[OF 1 2 3, of "\<lambda>a b. (OK, a @ b)"] show ?thesis by blast
qed

text \<open>When every \<^verbatim>\<open>Predicate::merge\<close> succeeds, the two merge loops are a fold over the slots.\<close>

lemma merge_in_filter_list_ok:
  assumes "\<forall>a b. fst (pm a b) = OK" "length ts \<le> length ins"
  shows "merge_in_filter_list pm ts ins =
     Some (OK, map (\<lambda>(t, x). if t = None \<or> x = None then None else Some (snd (pm (the t) (the x)))) (zip ts ins))"
  using assms(2)
proof (induction ts arbitrary: ins)
  case Nil
  then show ?case by simp
next
  case (Cons t ts)
  then obtain x xs where i: "ins = x # xs" by (cases ins) auto
  with Cons have "length ts \<le> length xs" by simp
  from Cons.IH[OF this] assms(1) show ?case unfolding i
    by (auto simp: split_beta Let_def)
qed

lemma merge_slots_ok:
  assumes "\<forall>a b. fst (pm a b) = OK" "\<forall>l \<in> set rest. length t \<le> length l"
  shows "merge_slots pm t rest =
     Some (OK, foldl (\<lambda>t l. map (\<lambda>(t, x). if t = None \<or> x = None then None else Some (snd (pm (the t) (the x)))) (zip t l)) t rest)"
  using assms(2)
proof (induction rest arbitrary: t)
  case Nil
  then show ?case by simp
next
  case (Cons l rest)
  let ?t1 = "map (\<lambda>(t, x). if t = None \<or> x = None then None else Some (snd (pm (the t) (the x)))) (zip t l)"
  have 1: "merge_in_filter_list pm t l = Some (OK, ?t1)"
    using merge_in_filter_list_ok[OF assms(1), of t l] Cons.prems by simp
  have "length ?t1 = length t" using Cons.prems by simp
  then have "\<forall>r \<in> set rest. length ?t1 \<le> length r" using Cons.prems by simp
  from Cons.IH[OF this] 1 show ?case by simp
qed

lemma foldl_merge_length:
  "\<forall>l \<in> set rest. length t \<le> length l \<Longrightarrow>
   length (foldl (\<lambda>t l. map (f :: 'a \<times> 'b \<Rightarrow> 'a) (zip t l)) t rest) = length t"
proof (induction rest arbitrary: t)
  case Nil
  then show ?case by simp
next
  case (Cons l rest)
  have 1: "length (map f (zip t l)) = length t" using Cons.prems by simp
  then have 2: "\<forall>r \<in> set rest. length (map f (zip t l)) \<le> length r" using Cons.prems by simp
  have "length (foldl (\<lambda>t l. map f (zip t l)) (map f (zip t l)) rest) = length (map f (zip t l))"
    by (rule Cons.IH[OF 2])
  then show ?case using 1 by simp
qed

lemma foldl_merge_nth:
  assumes pm: "\<forall>a b. keys (snd (pm a b)) = keys a \<union> keys b"
      and "\<forall>l \<in> set rest. length t \<le> length l" "p < length t"
  shows "(foldl (\<lambda>t l. map (\<lambda>(t, x). if t = None \<or> x = None then None else Some (snd (pm (the t) (the x)))) (zip t l)) t rest ! p \<noteq> None
         \<longleftrightarrow> t ! p \<noteq> None \<and> (\<forall>l \<in> set rest. l ! p \<noteq> None)) \<and>
         (foldl (\<lambda>t l. map (\<lambda>(t, x). if t = None \<or> x = None then None else Some (snd (pm (the t) (the x)))) (zip t l)) t rest ! p \<noteq> None \<longrightarrow>
           keys (the (foldl (\<lambda>t l. map (\<lambda>(t, x). if t = None \<or> x = None then None else Some (snd (pm (the t) (the x)))) (zip t l)) t rest ! p)) =
           keys (the (t ! p)) \<union> (\<Union>l \<in> set rest. keys (the (l ! p))))"
  using assms(2,3)
proof (induction rest arbitrary: t)
  case Nil
  then show ?case by simp
next
  case (Cons l rest)
  let ?E = "\<lambda>(t, x). if t = None \<or> x = None then None else Some (snd (pm (the t) (the x)))"
  let ?t1 = "map ?E (zip t l)"
  have len: "length ?t1 = length t" using Cons.prems by simp
  have a: "\<forall>r \<in> set rest. length ?t1 \<le> length r" using Cons.prems len by simp
  have b: "p < length ?t1" using Cons.prems len by simp
  have pl: "p < length l" using Cons.prems by auto
  have n: "?t1 ! p = (if t ! p = None \<or> l ! p = None then None else Some (snd (pm (the (t ! p)) (the (l ! p)))))"
    using Cons.prems pl by simp
  note ih = Cons.IH[OF a b]
  show ?case
  proof (cases "t ! p = None \<or> l ! p = None")
    case True
    then have "?t1 ! p = None" using n by simp
    with ih True show ?thesis by auto
  next
    case False
    then have k: "?t1 ! p \<noteq> None" "keys (the (?t1 ! p)) = keys (the (t ! p)) \<union> keys (the (l ! p))"
      using n pm by auto
    with ih False show ?thesis by auto
  qed
qed

lemma filter_nth_conv:
  "filter P xs = map ((!) xs) (filter (\<lambda>p. P (xs ! p)) [0..<length xs])"
proof -
  have "filter P xs = filter P (map ((!) xs) [0..<length xs])" by (simp add: map_nth)
  also have "\<dots> = map ((!) xs) (filter (\<lambda>p. P (xs ! p)) [0..<length xs])"
    by (simp add: filter_map comp_def)
  finally show ?thesis .
qed

lemma map_filter_cong:
  "(\<And>x. x \<in> set xs \<Longrightarrow> P x = Q x) \<Longrightarrow> (\<And>x. x \<in> set xs \<Longrightarrow> Q x \<Longrightarrow> f x = g x) \<Longrightarrow>
   map f (filter P xs) = map g (filter Q xs)"
  by (induction xs) auto

lemma retained_member:
  "l \<in> set (retained hts pif) \<Longrightarrow> \<exists>j. j < length hts \<and> j < length pif \<and> hts ! j \<noteq> 0 \<and> l = pif ! j"
  by (auto simp: retained_def in_set_zip)

lemma retained_length: "length (retained hts pif) \<le> length hts"
proof -
  have "length (filter (\<lambda>(c, l). c \<noteq> 0) (zip hts pif)) \<le> length (zip hts pif)"
    by (rule length_filter_le)
  then show ?thesis by (simp add: retained_def)
qed

lemma positional_union_foldl:
  assumes pm: "\<forall>a b. keys (snd (pm a b)) = keys a \<union> keys b"
      and al: "\<forall>l \<in> set rest. length l = length l0"
  shows "map (\<lambda>x. keys (the x))
           (filter (\<lambda>x. x \<noteq> None)
             (foldl (\<lambda>t l. map (\<lambda>(t, x). if t = None \<or> x = None then None else Some (snd (pm (the t) (the x)))) (zip t l)) l0 rest)) =
         positional_union (map (map (map_option keys)) (l0 # rest))"
proof -
  let ?E = "\<lambda>(t, x). if t = None \<or> x = None then None else Some (snd (pm (the t) (the x)))"
  let ?T = "foldl (\<lambda>t l. map ?E (zip t l)) l0 rest"
  let ?ls = "map (map (map_option keys)) (l0 # rest)"
  have le: "\<forall>l \<in> set rest. length l0 \<le> length l" using al by simp
  have len: "length ?T = length l0" by (rule foldl_merge_length[OF le])
  have nth: "\<And>p. p < length l0 \<Longrightarrow>
     (?T ! p \<noteq> None \<longleftrightarrow> l0 ! p \<noteq> None \<and> (\<forall>l \<in> set rest. l ! p \<noteq> None)) \<and>
     (?T ! p \<noteq> None \<longrightarrow> keys (the (?T ! p)) = keys (the (l0 ! p)) \<union> (\<Union>l \<in> set rest. keys (the (l ! p))))"
    by (rule foldl_merge_nth[OF pm le])
  have "filter (\<lambda>x. x \<noteq> None) ?T = map ((!) ?T) (filter (\<lambda>p. ?T ! p \<noteq> None) [0..<length l0])"
    using filter_nth_conv[of "\<lambda>x. x \<noteq> None" ?T] len by simp
  then have "map (\<lambda>x. keys (the x)) (filter (\<lambda>x. x \<noteq> None) ?T) =
      map (\<lambda>p. keys (the (?T ! p))) (filter (\<lambda>p. ?T ! p \<noteq> None) [0..<length l0])"
    by (simp add: comp_def)
  also have "\<dots> = map (\<lambda>p. \<Union>r \<in> set ?ls. the (r ! p)) (filter (\<lambda>p. \<forall>r \<in> set ?ls. r ! p \<noteq> None) [0..<length l0])"
  proof (rule map_filter_cong)
    fix p assume "p \<in> set [0..<length l0]"
    then have p: "p < length l0" by simp
    then show "(?T ! p \<noteq> None) = (\<forall>r \<in> set ?ls. r ! p \<noteq> None)"
      using nth[OF p] al by auto
  next
    fix p assume "p \<in> set [0..<length l0]" and q: "\<forall>r \<in> set ?ls. r ! p \<noteq> None"
    then have p: "p < length l0" by simp
    have nn: "l0 ! p \<noteq> None \<and> (\<forall>l \<in> set rest. l ! p \<noteq> None)" using q p al by auto
    then have "keys (the (?T ! p)) = keys (the (l0 ! p)) \<union> (\<Union>l \<in> set rest. keys (the (l ! p)))"
      using nth[OF p] by blast
    also have "\<dots> = (\<Union>r \<in> set ?ls. the (r ! p))"
      using nn p al by (auto simp: option.map_sel)
    finally show "keys (the (?T ! p)) = (\<Union>r \<in> set ?ls. the (r ! p))" .
  qed
  finally show ?thesis by (simp add: positional_union_def)
qed

text \<open>
  C5. Take a merger with at least one builder, all of whose slots are filled, where every
  builder with a non-empty hash table handed over a non-empty in-filter list and no row
  count exceeds 1024. The lists of these builders are aligned by position (they have the
  same length), and \<^verbatim>\<open>Predicate::merge\<close> succeeds and leaves in the total predicate the
  union of the two key sets (\<open>keys\<close> reads the key set of an in-filter). Then
  \<^verbatim>\<open>merge_in_filters\<close> returns success, and the list of slot 0 has no null entry and is, key
  set by key set, the positional union of the retained lists: the positions at which a
  retained list has a null entry are dropped, and at every other position the merged
  predicate holds the keys of all retained lists at this position and no other key.
\<close>

theorem merge_in_filters_union:
  assumes len: "length (partial_in_filters m) = length (ht_row_counts m)"
      and ne: "ht_row_counts m \<noteq> []"
      and nonempty: "\<forall>i < length (ht_row_counts m). ht_row_counts m ! i \<noteq> 0 \<longrightarrow> partial_in_filters m ! i \<noteq> []"
      and small: "\<forall>i < length (ht_row_counts m). ht_row_counts m ! i \<le> 1024"
      and aligned: "\<forall>l \<in> set (retained (ht_row_counts m) (partial_in_filters m)).
                      length l = length (hd (retained (ht_row_counts m) (partial_in_filters m)))"
      and pm: "\<forall>a b. fst (pmerge a b) = OK \<and> keys (snd (pmerge a b)) = keys a \<union> keys b"
  shows "\<exists>m1 total. merge_in_filters pmerge m = Some (OK, m1) \<and>
           get_total_in_filters m1 = Some total \<and> None \<notin> set total \<and>
           map (\<lambda>x. keys (the x)) total =
             positional_union (map (map (map_option keys)) (retained (ht_row_counts m) (partial_in_filters m)))"
proof -
  let ?hts = "ht_row_counts m" and ?pif = "partial_in_filters m"
  let ?R = "retained ?hts ?pif"
  have nb: "\<forall>j. 0 \<le> j \<and> j < length ?hts \<and> ?hts ! j \<noteq> 0 \<longrightarrow> ?pif ! j \<noteq> []"
    using nonempty by blast
  obtain pif1 where s: "squeeze ?hts 0 (True, 0, - 1, ?pif) =
         Some (True, foldl max 0 ?hts, - 1 + int (length ?R), pif1)"
    and l: "length pif1 = length ?hts"
    and t: "take (length ?R) pif1 = ?R"
    using squeeze_all[OF len _ _ _ nb, of "- 1" True 0] by auto
  have p: "pif1 \<noteq> []" using l ne by auto
  have sm: "foldl max 0 ?hts \<le> 1024"
    using small by (intro foldl_max_le) (auto simp: in_set_conv_nth)
  show ?thesis
  proof (cases "?R = []")
    case True
    let ?m1 = "m\<lparr>partial_in_filters := pif1[0 := []]\<rparr>"
    have "merge_in_filters pmerge m = Some (OK, ?m1)"
      using s p True by (simp add: merge_in_filters_def)
    moreover have "get_total_in_filters ?m1 = Some []" by (rule get_total_in_filters_update[OF p])
    ultimately show ?thesis using True by (auto simp: positional_union_def)
  next
    case False
    then obtain l0 rest where R: "?R = l0 # rest" by (cases ?R) auto
    have k: "nat (- 1 + int (length ?R) + 1) = length ?R" by simp
    have rl: "length ?R \<le> length pif1" using retained_length[of ?hts ?pif] l by simp
    have rs: "resize (length ?R) pif1 = ?R" using t rl by (simp add: resize_def)
    have al: "\<forall>l \<in> set rest. length l = length l0" using aligned R by simp
    then have le: "\<forall>l \<in> set rest. length l0 \<le> length l" by simp
    let ?T = "foldl (\<lambda>t l. map (\<lambda>(t, x). if t = None \<or> x = None then None else Some (snd (pmerge (the t) (the x)))) (zip t l)) l0 rest"
    have po: "\<forall>a b. fst (pmerge a b) = OK" using pm by simp
    have ms: "merge_slots pmerge (?R ! 0) (tl ?R) = Some (OK, ?T)"
      using merge_slots_ok[OF po le] R by simp
    let ?total = "filter (\<lambda>x. x \<noteq> None) ?T"
    let ?m1 = "m\<lparr>partial_in_filters := ?R[0 := ?total]\<rparr>"
    have kk: "- 1 + int (length ?R) \<ge> 0" using False by (cases ?R) auto
    have 1: "merge_in_filters pmerge m = Some (OK, ?m1)"
      using s ms sm kk by (simp add: merge_in_filters_def rs Let_def)
    have 2: "get_total_in_filters ?m1 = Some ?total" by (rule get_total_in_filters_update[OF False])
    have 3: "None \<notin> set ?total" by simp
    have pk: "\<forall>a b. keys (snd (pmerge a b)) = keys a \<union> keys b" using pm by simp
    have 4: "map (\<lambda>x. keys (the x)) ?total = positional_union (map (map (map_option keys)) ?R)"
      unfolding R by (rule positional_union_foldl[OF pk al])
    show ?thesis using 1 2 3 4 by blast
  qed
qed

text \<open>
  Scenario S1 of the specification: three builders with 10, 0 and 20 rows and the key sets
  \<open>{1,2,3}\<close>, none and \<open>{3,4,5}\<close>; an in-filter is its key set.
\<close>

theorem merge_in_filters_union_witness:
  "\<exists>m1. merge_in_filters (\<lambda>a b. (OK, a \<union> b))
          (\<lparr>limit = 1024, num_active_builders = 0, ht_row_counts = [10, 0, 20],
            partial_in_filters = [[Some {1, 2, 3 :: int}], [], [Some {3, 4, 5}]],
            partial_bloom_filter_build_params = [[], [], []],
            bloom_filter_descriptors = []\<rparr> :: (int set, unit, unit, unit, unit) PartialRuntimeFilterMerger)
        = Some (OK, m1) \<and> get_total_in_filters m1 = Some [Some {1, 2, 3, 4, 5}]"
proof -
  let ?m = "\<lparr>limit = 1024, num_active_builders = 0, ht_row_counts = [10, 0, 20],
            partial_in_filters = [[Some {1, 2, 3 :: int}], [], [Some {3, 4, 5}]],
            partial_bloom_filter_build_params = [[], [], []],
            bloom_filter_descriptors = []\<rparr> :: (int set, unit, unit, unit, unit) PartialRuntimeFilterMerger"
  let ?pm = "\<lambda>a b :: int set. (OK, a \<union> b)"
  have r: "retained (ht_row_counts ?m) (partial_in_filters ?m) = [[Some {1, 2, 3}], [Some {3, 4, 5}]]"
    by (simp add: retained_def)
  have 1: "length (partial_in_filters ?m) = length (ht_row_counts ?m)" by simp
  have 2: "ht_row_counts ?m \<noteq> []" by simp
  have 3: "\<forall>i < length (ht_row_counts ?m). ht_row_counts ?m ! i \<noteq> 0 \<longrightarrow> partial_in_filters ?m ! i \<noteq> []"
    by (auto simp: less_Suc_eq)
  have 4: "\<forall>i < length (ht_row_counts ?m). ht_row_counts ?m ! i \<le> 1024"
    by (auto simp: less_Suc_eq)
  have 5: "\<forall>l \<in> set (retained (ht_row_counts ?m) (partial_in_filters ?m)).
             length l = length (hd (retained (ht_row_counts ?m) (partial_in_filters ?m)))"
    unfolding r by simp
  have 6: "\<forall>a b. fst (?pm a b) = OK \<and> (\<lambda>x. x) (snd (?pm a b)) = (\<lambda>x. x) a \<union> (\<lambda>x. x) b"
    by simp
  have u: "positional_union (map (map (map_option (\<lambda>x. x))) [[Some {1, 2, 3 :: int}], [Some {3, 4, 5}]]) = [{1, 2, 3, 4, 5}]"
    by (auto simp: positional_union_def)
  note t = merge_in_filters_union[where keys = "\<lambda>x. x", OF 1 2 3 4 5 6, unfolded r u]
  from t obtain m1 tot where a: "merge_in_filters ?pm ?m = Some (OK, m1)"
    and b: "get_total_in_filters m1 = Some tot" and c: "None \<notin> set tot"
    and d: "map (\<lambda>x. the x) tot = [{1, 2, 3, 4, 5}]"
    by auto
  from d obtain x where x: "tot = [x]" "the x = {1, 2, 3, 4, 5}" by auto
  with c have "x = Some {1, 2, 3, 4, 5}" by (cases x) auto
  with a b x show ?thesis by blast
qed

text \<open>The limit of the merger matters for local-only descriptors with a consumer only.\<close>

lemma create_bloom_filter_limit:
  "has_remote_targets d \<or> \<not> has_consumer d \<Longrightarrow>
   create_bloom_filter h lim rc d = create_bloom_filter h lim2 rc d"
  by (auto simp: create_bloom_filter_def Let_def)

lemma create_bloom_filters_limit:
  "\<forall>d \<in> set (bloom_filter_descriptors m). has_remote_targets d \<or> \<not> has_consumer d \<Longrightarrow>
   create_bloom_filters h (m\<lparr>limit := lim\<rparr>) = create_bloom_filters h m"
  by (auto simp: create_bloom_filters_def intro: create_bloom_filter_limit)

lemma squeeze_single:
  "c \<noteq> 0 \<Longrightarrow> fs \<noteq> [] \<Longrightarrow> squeeze [c] 0 (True, 0, - 1, [fs]) = Some (True, c, 0, [fs])"
  by (simp add: squeeze.simps[of "[c]" 0] squeeze.simps[of "[c]" "Suc 0"] Let_def max_def)

text \<open>
  C9. \<^verbatim>\<open>merge_in_filters\<close> does not read the limit: on two mergers that differ in the limit
  only it returns the same status and the same state, up to the limit. The threshold of
  the in-filters is the constant 1024 whatever the limit is: a single builder with a
  non-empty hash table of \<open>c\<close> rows and a non-empty in-filter list keeps its (non-null)
  in-filters exactly when \<open>c \<le> 1024\<close>. In \<^verbatim>\<open>merge_bloom_filters\<close> the limit is read only for
  a descriptor that has a consumer and no remote targets: when there is no such
  descriptor, the result is the same up to the limit.
\<close>

theorem merge_in_filters_ignores_limit:
  "merge_in_filters pmerge (m\<lparr>limit := lim\<rparr>) =
     map_option (\<lambda>(st, m1). (st, m1\<lparr>limit := lim\<rparr>)) (merge_in_filters pmerge m) \<and>
   ((\<forall>d \<in> set (bloom_filter_descriptors m). has_remote_targets d \<or> \<not> has_consumer d) \<longrightarrow>
     merge_bloom_filters h (m\<lparr>limit := lim\<rparr>) =
       map_option (\<lambda>(st, m1). (st, m1\<lparr>limit := lim\<rparr>)) (merge_bloom_filters h m)) \<and>
   (ht_row_counts m = [c] \<and> c \<noteq> 0 \<and> partial_in_filters m = [fs] \<and> fs \<noteq> [] \<longrightarrow>
     map_option (\<lambda>(st, m1). (st, get_total_in_filters m1)) (merge_in_filters pmerge (m\<lparr>limit := lim\<rparr>)) =
       Some (OK, Some (if c \<le> 1024 then filter (\<lambda>x. x \<noteq> None) fs else [])))"
proof (intro conjI impI)
  show "merge_in_filters pmerge (m\<lparr>limit := lim\<rparr>) =
     map_option (\<lambda>(st, m1). (st, m1\<lparr>limit := lim\<rparr>)) (merge_in_filters pmerge m)"
    by (auto simp: merge_in_filters_def Let_def split: option.splits)
next
  assume "\<forall>d \<in> set (bloom_filter_descriptors m). has_remote_targets d \<or> \<not> has_consumer d"
  then show "merge_bloom_filters h (m\<lparr>limit := lim\<rparr>) =
       map_option (\<lambda>(st, m1). (st, m1\<lparr>limit := lim\<rparr>)) (merge_bloom_filters h m)"
    by (auto simp: merge_bloom_filters_def create_bloom_filters_limit split: option.splits)
next
  assume "ht_row_counts m = [c] \<and> c \<noteq> 0 \<and> partial_in_filters m = [fs] \<and> fs \<noteq> []"
  then show "map_option (\<lambda>(st, m1). (st, get_total_in_filters m1))
        (merge_in_filters pmerge (m\<lparr>limit := lim\<rparr>)) =
       Some (OK, Some (if c \<le> 1024 then filter (\<lambda>x. x \<noteq> None) fs else []))"
    by (simp add: merge_in_filters_def squeeze_single resize_def get_total_in_filters_def)
qed

text \<open>
  One builder with 2000 rows and one in-filter, a descriptor with remote targets, and the
  limits 10 and 5000: the in-filter is dropped under the limit 5000 as well, and the bloom
  filters are merged alike.
\<close>

theorem merge_in_filters_ignores_limit_witness:
  "map_option (\<lambda>(st, m1). (st, get_total_in_filters m1))
     (merge_in_filters (\<lambda>a b. (OK, a @ b))
       (\<lparr>limit = 5000, num_active_builders = 0, ht_row_counts = [2000],
         partial_in_filters = [[Some [7::int]]], partial_bloom_filter_build_params = [[]],
         bloom_filter_descriptors =
           [\<lparr>build_expr_type = (), join_mode = (), has_consumer = True, has_remote_targets = True,
              is_pipeline = False, runtime_filter = None\<rparr>]\<rparr>
        :: (int list, unit, unit, unit, unit) PartialRuntimeFilterMerger))
   = Some (OK, Some []) \<and>
   merge_bloom_filters
     \<lparr>create_runtime_bloom_filter = (\<lambda>_. Some ()), init = (\<lambda>n f. f), set_join_mode = (\<lambda>_ f. f),
       fill_runtime_bloom_filter = (\<lambda>c t f e. (OK, f))\<rparr>
       (\<lparr>limit = 5000, num_active_builders = 0, ht_row_counts = [2000],
         partial_in_filters = [[Some [7::int]]], partial_bloom_filter_build_params = [[]],
         bloom_filter_descriptors =
           [\<lparr>build_expr_type = (), join_mode = (), has_consumer = True, has_remote_targets = True,
              is_pipeline = False, runtime_filter = None\<rparr>]\<rparr>
        :: (int list, unit, unit, unit, unit) PartialRuntimeFilterMerger)
   = map_option (\<lambda>(st, m1). (st, m1\<lparr>limit := 5000\<rparr>))
      (merge_bloom_filters
        \<lparr>create_runtime_bloom_filter = (\<lambda>_. Some ()), init = (\<lambda>n f. f), set_join_mode = (\<lambda>_ f. f),
          fill_runtime_bloom_filter = (\<lambda>c t f e. (OK, f))\<rparr>
        (\<lparr>limit = 10, num_active_builders = 0, ht_row_counts = [2000],
          partial_in_filters = [[Some [7::int]]], partial_bloom_filter_build_params = [[]],
          bloom_filter_descriptors =
            [\<lparr>build_expr_type = (), join_mode = (), has_consumer = True, has_remote_targets = True,
               is_pipeline = False, runtime_filter = None\<rparr>]\<rparr>
         :: (int list, unit, unit, unit, unit) PartialRuntimeFilterMerger))"
proof -
  let ?m = "\<lparr>limit = 10, num_active_builders = 0, ht_row_counts = [2000],
         partial_in_filters = [[Some [7::int]]], partial_bloom_filter_build_params = [[]],
         bloom_filter_descriptors =
           [\<lparr>build_expr_type = (), join_mode = (), has_consumer = True, has_remote_targets = True,
              is_pipeline = False, runtime_filter = None\<rparr>]\<rparr>
        :: (int list, unit, unit, unit, unit) PartialRuntimeFilterMerger"
  let ?h = "\<lparr>create_runtime_bloom_filter = (\<lambda>_. Some ()), init = (\<lambda>n f. f), set_join_mode = (\<lambda>_ f. f),
       fill_runtime_bloom_filter = (\<lambda>c t f e. (OK, f))\<rparr> :: (unit, unit, unit, unit) RuntimeFilterHelper"
  have e: "?m\<lparr>limit := 5000\<rparr> = \<lparr>limit = 5000, num_active_builders = 0, ht_row_counts = [2000],
         partial_in_filters = [[Some [7::int]]], partial_bloom_filter_build_params = [[]],
         bloom_filter_descriptors =
           [\<lparr>build_expr_type = (), join_mode = (), has_consumer = True, has_remote_targets = True,
              is_pipeline = False, runtime_filter = None\<rparr>]\<rparr>"
    by simp
  have a: "\<forall>d \<in> set (bloom_filter_descriptors ?m). has_remote_targets d \<or> \<not> has_consumer d"
    by simp
  have b: "ht_row_counts ?m = [2000] \<and> (2000::size_t) \<noteq> 0 \<and>
           partial_in_filters ?m = [[Some [7]]] \<and> [Some [7::int]] \<noteq> []"
    by simp
  note t = merge_in_filters_ignores_limit[where pmerge = "\<lambda>a b. (OK, a @ b)" and m = ?m
      and lim = 5000 and h = ?h and c = 2000 and fs = "[Some [7]]"]
  from t a have 1: "merge_bloom_filters ?h (?m\<lparr>limit := 5000\<rparr>) =
       map_option (\<lambda>(st, m1). (st, m1\<lparr>limit := 5000\<rparr>)) (merge_bloom_filters ?h ?m)"
    by blast
  from t b have 2: "map_option (\<lambda>(st, m1). (st, get_total_in_filters m1))
        (merge_in_filters (\<lambda>a b. (OK, a @ b)) (?m\<lparr>limit := 5000\<rparr>)) =
       Some (OK, Some (if (2000::size_t) \<le> 1024 then filter (\<lambda>x. x \<noteq> None) [Some [7]] else []))"
    by blast
  have 3: "\<not> (2000::size_t) \<le> 1024" by simp
  show ?thesis using 1 2 3 unfolding e by simp
qed

lemma foldl_plus: "foldl (\<lambda>row_count count. row_count + count) (a::size_t) xs = a + sum_list xs"
  by (induction xs arbitrary: a) (simp_all add: add.assoc)

lemma total_row_count_sum: "total_row_count hts = sum_list hts"
  by (simp add: total_row_count_def foldl_plus)

text \<open>
  C6, as stated, fails: a descriptor with a consumer and remote targets gets no filter when
  \<^verbatim>\<open>create_runtime_bloom_filter\<close> returns null for its build type, which the code checks
  for (\<^verbatim>\<open>if (filter == nullptr) continue;\<close>). Here the descriptor is marked and keeps its
  null filter.
\<close>

theorem merge_bloom_filters_no_filter_counterexample:
  "has_consumer \<lparr>build_expr_type = (), join_mode = (), has_consumer = True, has_remote_targets = True,
                  is_pipeline = False, runtime_filter = (None :: unit option)\<rparr> \<and>
   has_remote_targets \<lparr>build_expr_type = (), join_mode = (), has_consumer = True, has_remote_targets = True,
                  is_pipeline = False, runtime_filter = (None :: unit option)\<rparr> \<and>
   merge_bloom_filters
     \<lparr>create_runtime_bloom_filter = (\<lambda>_. None), init = (\<lambda>n f. f), set_join_mode = (\<lambda>_ f. f),
       fill_runtime_bloom_filter = (\<lambda>c t f e. (OK, f))\<rparr>
     (\<lparr>limit = 1024, num_active_builders = 0, ht_row_counts = [10],
       partial_in_filters = [[]], partial_bloom_filter_build_params = [[]],
       bloom_filter_descriptors =
         [\<lparr>build_expr_type = (), join_mode = (), has_consumer = True, has_remote_targets = True,
            is_pipeline = False, runtime_filter = None\<rparr>]\<rparr>
      :: (unit, unit, unit, unit, unit) PartialRuntimeFilterMerger)
   = Some (OK,
      \<lparr>limit = 1024, num_active_builders = 0, ht_row_counts = [10],
       partial_in_filters = [[]], partial_bloom_filter_build_params = [[]],
       bloom_filter_descriptors =
         [\<lparr>build_expr_type = (), join_mode = (), has_consumer = True, has_remote_targets = True,
            is_pipeline = True, runtime_filter = None\<rparr>]\<rparr>)"
  by (simp add: merge_bloom_filters_def create_bloom_filters_def create_bloom_filter_def)

text \<open>
  C6, amended. For a merger with at least one builder, \<^verbatim>\<open>merge_bloom_filters\<close> first maps
  every descriptor as follows and then fills the filters from the builders' parameters.
  With \<open>row_count\<close> the sum (in 64-bit arithmetic) of the row counts of all builders, a
  descriptor is marked as coming from the pipeline engine; it is otherwise left as it is
  when it has no consumer, when it has no remote targets and \<open>row_count\<close> exceeds the limit
  of the merger, and when \<^verbatim>\<open>create_runtime_bloom_filter\<close> returns null for its build type;
  in every other case the created filter, initialised with \<open>row_count\<close> and then given
  the join mode of the descriptor, is installed on it.
\<close>

theorem merge_bloom_filters_creates:
  assumes "partial_bloom_filter_build_params m \<noteq> []"
  shows "merge_bloom_filters h m =
           map_option (\<lambda>descs. (OK, m\<lparr>bloom_filter_descriptors := descs\<rparr>))
             (fill_all_bloom_filters h (create_bloom_filters h m) (partial_bloom_filter_build_params m)) \<and>
         length (create_bloom_filters h m) = length (bloom_filter_descriptors m) \<and>
         (\<forall>i < length (bloom_filter_descriptors m).
            create_bloom_filters h m ! i =
              (let d = bloom_filter_descriptors m ! i; row_count = sum_list (ht_row_counts m) in
               if \<not> has_consumer d then d\<lparr>is_pipeline := True\<rparr>
               else if \<not> has_remote_targets d \<and> limit m < row_count then d\<lparr>is_pipeline := True\<rparr>
               else case create_runtime_bloom_filter h (build_expr_type d) of
                      None \<Rightarrow> d\<lparr>is_pipeline := True\<rparr>
                    | Some f \<Rightarrow> d\<lparr>is_pipeline := True,
                                 runtime_filter := Some (set_join_mode h (join_mode d) (init h row_count f))\<rparr>))"
  using assms
  by (auto simp: merge_bloom_filters_def create_bloom_filters_def create_bloom_filter_def
      total_row_count_sum Let_def split: option.splits)

text \<open>
  Scenario S1 of the specification: row counts 10, 0 and 20, and a local descriptor with a
  consumer. A filter is a pair of its size and its join mode.
\<close>

theorem merge_bloom_filters_creates_witness:
  "create_bloom_filters
     \<lparr>create_runtime_bloom_filter = (\<lambda>_. Some (0, 0)), init = (\<lambda>n f. (n, snd f)),
       set_join_mode = (\<lambda>j f. (fst f, j)), fill_runtime_bloom_filter = (\<lambda>c t f e. (OK, f))\<rparr>
     (\<lparr>limit = 1024, num_active_builders = 0, ht_row_counts = [10, 0, 20],
       partial_in_filters = [[], [], []], partial_bloom_filter_build_params = [[], [], []],
       bloom_filter_descriptors =
         [\<lparr>build_expr_type = (), join_mode = (1::nat), has_consumer = True, has_remote_targets = False,
            is_pipeline = False, runtime_filter = None\<rparr>]\<rparr>
      :: (unit, unit, nat, unit, size_t \<times> nat) PartialRuntimeFilterMerger) ! 0
   = \<lparr>build_expr_type = (), join_mode = 1, has_consumer = True, has_remote_targets = False,
       is_pipeline = True, runtime_filter = Some (30, 1)\<rparr>"
proof -
  let ?h = "\<lparr>create_runtime_bloom_filter = (\<lambda>_. Some (0, 0)), init = (\<lambda>n f. (n, snd f)),
       set_join_mode = (\<lambda>j f. (fst f, j)), fill_runtime_bloom_filter = (\<lambda>c t f e. (OK, f))\<rparr>
       :: (unit, nat, unit, size_t \<times> nat) RuntimeFilterHelper"
  let ?m = "\<lparr>limit = 1024, num_active_builders = 0, ht_row_counts = [10, 0, 20],
       partial_in_filters = [[], [], []], partial_bloom_filter_build_params = [[], [], []],
       bloom_filter_descriptors =
         [\<lparr>build_expr_type = (), join_mode = (1::nat), has_consumer = True, has_remote_targets = False,
            is_pipeline = False, runtime_filter = None\<rparr>]\<rparr>
      :: (unit, unit, nat, unit, size_t \<times> nat) PartialRuntimeFilterMerger"
  have p: "partial_bloom_filter_build_params ?m \<noteq> []" by simp
  from merge_bloom_filters_creates[OF p, of ?h] show ?thesis by simp
qed

text \<open>
  The two merges return when the in-filter lists are aligned and no builder has more
  parameters than there are descriptors: no iterator is stepped past the end of its list.
\<close>

lemma merge_in_filter_list_defined:
  "length ts \<le> length ins \<Longrightarrow>
   \<exists>st ts1. merge_in_filter_list pm ts ins = Some (st, ts1) \<and> length ts1 = length ts"
proof (induction ts arbitrary: ins)
  case Nil
  then show ?case by simp
next
  case (Cons t ts)
  then obtain x xs where i: "ins = x # xs" by (cases ins) auto
  with Cons.prems have "length ts \<le> length xs" by simp
  from Cons.IH[OF this] obtain st ts1 where
    r: "merge_in_filter_list pm ts xs = Some (st, ts1)" "length ts1 = length ts" by blast
  show ?case unfolding i using r by (auto simp: split_beta Let_def)
qed

lemma merge_slots_defined:
  "\<forall>l \<in> set rest. length t \<le> length l \<Longrightarrow> \<exists>st t1. merge_slots pm t rest = Some (st, t1)"
proof (induction rest arbitrary: t)
  case Nil
  then show ?case by simp
next
  case (Cons l rest)
  then have "length t \<le> length l" by simp
  from merge_in_filter_list_defined[OF this, of pm] obtain st t1 where
    r: "merge_in_filter_list pm t l = Some (st, t1)" "length t1 = length t" by blast
  then have "\<forall>r \<in> set rest. length t1 \<le> length r" using Cons.prems by simp
  from Cons.IH[OF this] r show ?case by auto
qed

lemma merge_in_filters_defined:
  assumes len: "length (partial_in_filters m) = length (ht_row_counts m)"
      and ne: "ht_row_counts m \<noteq> []"
      and al: "\<forall>l \<in> set (partial_in_filters m). l = [] \<or> length l = w"
  shows "\<exists>st pif1. merge_in_filters pm m = Some (st, m\<lparr>partial_in_filters := pif1\<rparr>)"
proof -
  let ?hts = "ht_row_counts m" and ?pif = "partial_in_filters m"
  let ?R = "retained ?hts ?pif"
  show ?thesis
  proof (cases "\<exists>i < length ?hts. ?hts ! i \<noteq> 0 \<and> ?pif ! i = []")
    case True
    then obtain j where "j < length ?hts" "?hts ! j \<noteq> 0" "?pif ! j = []" by blast
    then obtain n k pif1 where s: "squeeze ?hts 0 (True, 0, - 1, ?pif) = Some (False, n, k, pif1)"
      and l: "length pif1 = length ?hts"
      using squeeze_break[of ?pif ?hts 0 j "- 1" True 0] len by auto
    have "pif1 \<noteq> []" using l ne by auto
    then have f: "merge_in_filters pm m = Some (OK, m\<lparr>partial_in_filters := pif1[0 := []]\<rparr>)"
      using s by (simp add: merge_in_filters_def)
    show ?thesis by (rule exI, rule exI, rule f)
  next
    case False
    then have nb: "\<forall>j. 0 \<le> j \<and> j < length ?hts \<and> ?hts ! j \<noteq> 0 \<longrightarrow> ?pif ! j \<noteq> []" by blast
    obtain pif1 where s: "squeeze ?hts 0 (True, 0, - 1, ?pif) =
         Some (True, foldl max 0 ?hts, - 1 + int (length ?R), pif1)"
      and l: "length pif1 = length ?hts"
      and t: "take (length ?R) pif1 = ?R"
      using squeeze_all[OF len _ _ _ nb, of "- 1" True 0] by auto
    have p: "pif1 \<noteq> []" using l ne by auto
    show ?thesis
    proof (cases "foldl max 0 ?hts \<le> 1024 \<and> - 1 + int (length ?R) \<ge> 0")
      case False
      then have f: "merge_in_filters pm m = Some (OK, m\<lparr>partial_in_filters := pif1[0 := []]\<rparr>)"
        using s p by (auto simp: merge_in_filters_def)
      show ?thesis by (rule exI, rule exI, rule f)
    next
      case True
      then have rne: "?R \<noteq> []" by auto
      have rl: "length ?R \<le> length pif1" using retained_length[of ?hts ?pif] l by simp
      have rs: "resize (length ?R) pif1 = ?R" using t rl by (simp add: resize_def)
      have rw: "\<forall>l \<in> set ?R. length l = w"
      proof
        fix l assume "l \<in> set ?R"
        then obtain j where j: "j < length ?hts" "j < length ?pif" "?hts ! j \<noteq> 0" "l = ?pif ! j"
          using retained_member by blast
        then have "l \<noteq> []" using nb by simp
        moreover have "l \<in> set ?pif" using j by simp
        ultimately show "length l = w" using al by blast
      qed
      have r0: "?R ! 0 \<in> set ?R" using rne by simp
      have rt: "\<forall>l \<in> set (tl ?R). l \<in> set ?R" using rne by (auto dest: list.set_sel(2))
      have "\<forall>l \<in> set (tl ?R). length (?R ! 0) \<le> length l" using rw r0 rt by simp
      from merge_slots_defined[OF this, of pm] obtain st t1 where
        ms: "merge_slots pm (?R ! 0) (tl ?R) = Some (st, t1)" by blast
      have f: "merge_in_filters pm m =
          Some (st, m\<lparr>partial_in_filters := ?R[0 := (if st \<noteq> OK then t1 else filter (\<lambda>x. x \<noteq> None) t1)]\<rparr>)"
        using s ms True by (simp add: merge_in_filters_def rs Let_def)
      show ?thesis by (rule exI, rule exI, rule f)
    qed
  qed
qed

lemma fill_bloom_filters_defined:
  "length params \<le> length descs \<Longrightarrow>
   \<exists>descs1. fill_bloom_filters h descs params = Some descs1 \<and> length descs1 = length descs"
proof (induction params arbitrary: descs)
  case Nil
  then show ?case by simp
next
  case (Cons p params)
  then obtain d ds where d: "descs = d # ds" by (cases descs) auto
  with Cons.prems have "length params \<le> length ds" by simp
  from Cons.IH[OF this] show ?case unfolding d by auto
qed

lemma fill_all_bloom_filters_defined:
  "\<forall>params \<in> set pss. length params \<le> length descs \<Longrightarrow>
   \<exists>descs1. fill_all_bloom_filters h descs pss = Some descs1"
proof (induction pss arbitrary: descs)
  case Nil
  then show ?case by simp
next
  case (Cons ps pss)
  then have "length ps \<le> length descs" by simp
  from fill_bloom_filters_defined[OF this, of h] obtain d1 where
    r: "fill_bloom_filters h descs ps = Some d1" "length d1 = length descs" by blast
  then have "\<forall>params \<in> set pss. length params \<le> length d1" using Cons.prems by simp
  from Cons.IH[OF this] r show ?case by auto
qed

lemma merge_bloom_filters_defined:
  assumes "\<forall>params \<in> set (partial_bloom_filter_build_params m). length params \<le> length (bloom_filter_descriptors m)"
  shows "\<exists>st m1. merge_bloom_filters h m = Some (st, m1)"
proof -
  have "length (create_bloom_filters h m) = length (bloom_filter_descriptors m)"
    by (simp add: create_bloom_filters_def)
  with assms have "\<forall>params \<in> set (partial_bloom_filter_build_params m). length params \<le> length (create_bloom_filters h m)"
    by simp
  from fill_all_bloom_filters_defined[OF this, of h] show ?thesis
    by (auto simp: merge_bloom_filters_def)
qed

lemma add_partial_filters_not_last:
  assumes "idx < length (ht_row_counts m)" "idx < length (partial_in_filters m)"
    "idx < length (partial_bloom_filter_build_params m)" "num_active_builders m \<noteq> 1"
  shows "add_partial_filters pm h idx rc fs ps ds m =
     Some (Inr False,
       m\<lparr>ht_row_counts := (ht_row_counts m)[idx := rc],
         partial_in_filters := (partial_in_filters m)[idx := fs],
         partial_bloom_filter_build_params := (partial_bloom_filter_build_params m)[idx := ps],
         num_active_builders := num_active_builders m - 1\<rparr>)"
  using assms by (auto simp: add_partial_filters_def Let_def)

lemma add_partial_filters_last:
  assumes "idx < length (ht_row_counts m)" "idx < length (partial_in_filters m)"
    "idx < length (partial_bloom_filter_build_params m)" "num_active_builders m = 1"
    and "merge_in_filters pm
       (m\<lparr>ht_row_counts := (ht_row_counts m)[idx := rc],
         partial_in_filters := (partial_in_filters m)[idx := fs],
         partial_bloom_filter_build_params := (partial_bloom_filter_build_params m)[idx := ps],
         num_active_builders := 0, bloom_filter_descriptors := ds\<rparr>) = Some (st1, m3)"
    and "merge_bloom_filters h m3 = Some (st2, m2)"
  shows "add_partial_filters pm h idx rc fs ps ds m = Some (Inr True, m2)"
  using assms by (simp add: add_partial_filters_def Let_def)

lemma merger_run_append:
  "merger_run pm h m (cs @ [c]) =
     (case merger_run pm h m cs of
        None \<Rightarrow> None
      | Some (rs, m1) \<Rightarrow>
          (case add_partial_filters pm h (builder_idx c) (builder_ht_row_count c) (builder_in_filters c)
                  (builder_params c) (builder_descriptors c) m1 of
             None \<Rightarrow> None
           | Some (r, m2) \<Rightarrow> Some (rs @ [r], m2)))"
  by (induction cs arbitrary: m) (auto split: option.splits)

lemma unat_gt_1_neq_1: "1 < unat (x::size_t) \<Longrightarrow> x \<noteq> 1"
  by auto

lemma unat_minus_1: "0 < unat (x::size_t) \<Longrightarrow> unat (x - 1) = unat x - 1"
  by (simp add: unat_minus_one unat_gt_0)

text \<open>The calls before the last one only fill their slots and count down.\<close>

lemma merger_run_prefix:
  assumes "length (ht_row_counts m) = N" "length (partial_in_filters m) = N"
    "length (partial_bloom_filter_build_params m) = N"
    "\<forall>c \<in> set cs. builder_idx c < N" "length cs < unat (num_active_builders m)"
    "distinct (map builder_idx cs)"
  shows "\<exists>m1. merger_run pm h m cs = Some (replicate (length cs) (Inr False), m1) \<and>
     unat (num_active_builders m1) = unat (num_active_builders m) - length cs \<and>
     length (ht_row_counts m1) = N \<and> length (partial_in_filters m1) = N \<and>
     length (partial_bloom_filter_build_params m1) = N \<and>
     bloom_filter_descriptors m1 = bloom_filter_descriptors m \<and> limit m1 = limit m \<and>
     (\<forall>c \<in> set cs. partial_in_filters m1 ! builder_idx c = builder_in_filters c \<and>
                    partial_bloom_filter_build_params m1 ! builder_idx c = builder_params c) \<and>
     (\<forall>i. i \<notin> builder_idx ` set cs \<longrightarrow>
            partial_in_filters m1 ! i = partial_in_filters m ! i \<and>
            partial_bloom_filter_build_params m1 ! i = partial_bloom_filter_build_params m ! i)"
  using assms
proof (induction cs arbitrary: m)
  case Nil
  then show ?case by simp
next
  case (Cons c cs)
  let ?m2 = "m\<lparr>ht_row_counts := (ht_row_counts m)[builder_idx c := builder_ht_row_count c],
         partial_in_filters := (partial_in_filters m)[builder_idx c := builder_in_filters c],
         partial_bloom_filter_build_params := (partial_bloom_filter_build_params m)[builder_idx c := builder_params c],
         num_active_builders := num_active_builders m - 1\<rparr>"
  have i: "builder_idx c < N" using Cons.prems by simp
  have big: "1 < unat (num_active_builders m)" using Cons.prems by simp
  then have ne1: "num_active_builders m \<noteq> 1" by (rule unat_gt_1_neq_1)
  have a: "add_partial_filters pm h (builder_idx c) (builder_ht_row_count c) (builder_in_filters c)
             (builder_params c) (builder_descriptors c) m = Some (Inr False, ?m2)"
    using add_partial_filters_not_last[OF _ _ _ ne1] i Cons.prems(1,2,3) by simp
  have u: "unat (num_active_builders ?m2) = unat (num_active_builders m) - 1"
    using big by (simp add: unat_minus_1)
  have p: "length (ht_row_counts ?m2) = N" "length (partial_in_filters ?m2) = N"
    "length (partial_bloom_filter_build_params ?m2) = N"
    "\<forall>c \<in> set cs. builder_idx c < N" "length cs < unat (num_active_builders ?m2)"
    "distinct (map builder_idx cs)"
    using Cons.prems u by auto
  from Cons.IH[OF p] obtain m1 where
    r: "merger_run pm h ?m2 cs = Some (replicate (length cs) (Inr False), m1)"
    and n: "unat (num_active_builders m1) = unat (num_active_builders ?m2) - length cs"
    and l: "length (ht_row_counts m1) = N" "length (partial_in_filters m1) = N"
       "length (partial_bloom_filter_build_params m1) = N"
    and d: "bloom_filter_descriptors m1 = bloom_filter_descriptors ?m2" "limit m1 = limit ?m2"
    and st: "\<forall>c \<in> set cs. partial_in_filters m1 ! builder_idx c = builder_in_filters c \<and>
                    partial_bloom_filter_build_params m1 ! builder_idx c = builder_params c"
    and fr: "\<forall>i. i \<notin> builder_idx ` set cs \<longrightarrow>
            partial_in_filters m1 ! i = partial_in_filters ?m2 ! i \<and>
            partial_bloom_filter_build_params m1 ! i = partial_bloom_filter_build_params ?m2 ! i"
    by blast
  have 1: "merger_run pm h m (c # cs) = Some (replicate (length (c # cs)) (Inr False), m1)"
    using a r by simp
  have 2: "unat (num_active_builders m1) = unat (num_active_builders m) - length (c # cs)"
    using n u by simp
  have nc: "builder_idx c \<notin> builder_idx ` set cs" using Cons.prems(6) by simp
  have 3: "partial_in_filters m1 ! builder_idx c = builder_in_filters c \<and>
           partial_bloom_filter_build_params m1 ! builder_idx c = builder_params c"
    using fr nc i Cons.prems(2,3) by simp
  have 4: "\<forall>i. i \<notin> builder_idx ` set (c # cs) \<longrightarrow>
            partial_in_filters m1 ! i = partial_in_filters m ! i \<and>
            partial_bloom_filter_build_params m1 ! i = partial_bloom_filter_build_params m ! i"
    using fr by auto
  have 5: "\<forall>x \<in> set (c # cs). partial_in_filters m1 ! builder_idx x = builder_in_filters x \<and>
                    partial_bloom_filter_build_params m1 ! builder_idx x = builder_params x"
    using 3 st by simp
  have 6: "bloom_filter_descriptors m1 = bloom_filter_descriptors m" "limit m1 = limit m"
    using d by simp_all
  show ?case
    apply (rule exI[where x = m1])
    using 1 2 l 6 5 4 by blast
qed

lemma slots_after_prefix:
  assumes "length xs = N" "length ys = N"
    and st: "\<forall>c \<in> set cs. ys ! idx c = val c"
    and fr: "\<forall>i. i \<notin> idx ` set cs \<longrightarrow> ys ! i = xs ! i"
    and p0: "\<forall>x \<in> set xs. P x" and pc: "\<forall>c \<in> set cs. P (val c)" and pv: "P v"
  shows "\<forall>y \<in> set (ys[j := v]). P y"
proof
  fix y assume "y \<in> set (ys[j := v])"
  then have "y = v \<or> y \<in> set ys" using set_update_subset_insert[of ys j v] by auto
  then show "P y"
  proof
    assume "y = v"
    then show ?thesis using pv by simp
  next
    assume "y \<in> set ys"
    then obtain i where i: "i < N" "y = ys ! i" using assms(2) by (auto simp: in_set_conv_nth)
    show ?thesis
    proof (cases "i \<in> idx ` set cs")
      case True
      then obtain c where "c \<in> set cs" "i = idx c" by auto
      then show ?thesis using st pc i by auto
    next
      case False
      then have "y = xs ! i" using fr i by simp
      then show ?thesis using p0 i assms(1) by auto
    qed
  qed
qed

text \<open>
  C2. A merger is constructed for \<open>n > 0\<close> builders, and the builders call
  \<^verbatim>\<open>add_partial_filters\<close> once each, with distinct indices below \<open>n\<close>, in any order (the
  order of their atomic decrements). Their non-empty in-filter lists have one length and
  no builder has more parameters than the last caller has descriptors, so that the merges
  stay within their lists. Then every call returns: the first \<open>n - 1\<close> calls return
  \<^verbatim>\<open>false\<close>, after them no descriptor is stored and every slot holds the in-filter list as
  it was handed over, and the last call returns \<^verbatim>\<open>true\<close>, its final state being that of
  \<^verbatim>\<open>merge_in_filters\<close> and then \<^verbatim>\<open>merge_bloom_filters\<close> run on the filled slots with the
  descriptors of the last caller stored.
\<close>

theorem add_partial_filters_rendezvous:
  fixes pm :: "'in \<Rightarrow> 'in \<Rightarrow> Status \<times> 'in"
    and h :: "('ty, 'jm, 'col, 'f) RuntimeFilterHelper"
    and cs :: "('in, 'ty, 'jm, 'col, 'f) partial_filters list"
  assumes n: "n \<noteq> 0" and len: "length cs = unat n"
    and idx: "\<forall>c \<in> set cs. builder_idx c < unat n" and dist: "distinct (map builder_idx cs)"
    and al: "\<forall>c \<in> set cs. builder_in_filters c = [] \<or> length (builder_in_filters c) = w"
    and par: "\<forall>c \<in> set cs. length (builder_params c) \<le> length (builder_descriptors (last cs))"
  shows "\<exists>m1 m2.
      merger_run pm h (new_merger lim n) (butlast cs) = Some (replicate (unat n - 1) (Inr False), m1) \<and>
      bloom_filter_descriptors m1 = [] \<and>
      (\<forall>c \<in> set (butlast cs). partial_in_filters m1 ! builder_idx c = builder_in_filters c) \<and>
      merger_run pm h (new_merger lim n) cs = Some (replicate (unat n - 1) (Inr False) @ [Inr True], m2) \<and>
      (\<exists>st1 m3 st2.
         merge_in_filters pm
           (m1\<lparr>ht_row_counts := (ht_row_counts m1)[builder_idx (last cs) := builder_ht_row_count (last cs)],
               partial_in_filters := (partial_in_filters m1)[builder_idx (last cs) := builder_in_filters (last cs)],
               partial_bloom_filter_build_params :=
                 (partial_bloom_filter_build_params m1)[builder_idx (last cs) := builder_params (last cs)],
               num_active_builders := 0,
               bloom_filter_descriptors := builder_descriptors (last cs)\<rparr>) = Some (st1, m3) \<and>
         merge_bloom_filters h m3 = Some (st2, m2))"
proof -
  let ?N = "unat n"
  let ?m0 = "new_merger lim n :: ('in, 'ty, 'jm, 'col, 'f) PartialRuntimeFilterMerger"
  let ?bs = "butlast cs" and ?c = "last cs"
  have N: "0 < ?N" using n by (simp add: unat_gt_0)
  then have cne: "cs \<noteq> []" using len by auto
  then have split: "cs = ?bs @ [?c]" by simp
  have cin: "?c \<in> set cs" using cne by simp
  have bin: "\<forall>c \<in> set ?bs. c \<in> set cs" by (auto dest: in_set_butlastD)
  have lb: "length ?bs = ?N - 1" using len by simp
  have p: "length (ht_row_counts ?m0) = ?N" "length (partial_in_filters ?m0) = ?N"
    "length (partial_bloom_filter_build_params ?m0) = ?N"
    "\<forall>c \<in> set ?bs. builder_idx c < ?N" "length ?bs < unat (num_active_builders ?m0)"
    "distinct (map builder_idx ?bs)"
    using idx bin lb N dist by (auto simp: new_merger_def map_butlast distinct_butlast)
  from merger_run_prefix[OF p, of pm h] obtain m1 where
    r: "merger_run pm h ?m0 ?bs = Some (replicate (length ?bs) (Inr False), m1)"
    and u: "unat (num_active_builders m1) = unat (num_active_builders ?m0) - length ?bs"
    and l: "length (ht_row_counts m1) = ?N" "length (partial_in_filters m1) = ?N"
       "length (partial_bloom_filter_build_params m1) = ?N"
    and d: "bloom_filter_descriptors m1 = bloom_filter_descriptors ?m0"
    and st: "\<forall>c \<in> set ?bs. partial_in_filters m1 ! builder_idx c = builder_in_filters c \<and>
                    partial_bloom_filter_build_params m1 ! builder_idx c = builder_params c"
    and fr: "\<forall>i. i \<notin> builder_idx ` set ?bs \<longrightarrow>
            partial_in_filters m1 ! i = partial_in_filters ?m0 ! i \<and>
            partial_bloom_filter_build_params m1 ! i = partial_bloom_filter_build_params ?m0 ! i"
    by blast
  have "unat (num_active_builders m1) = 1" using u lb N by (simp add: new_merger_def)
  then have one: "num_active_builders m1 = 1" by (simp add: word_unat_eq_iff)
  have d0: "bloom_filter_descriptors m1 = []" using d by (simp add: new_merger_def)
  have ic: "builder_idx ?c < ?N" using idx cin by simp
  let ?m3in = "m1\<lparr>ht_row_counts := (ht_row_counts m1)[builder_idx ?c := builder_ht_row_count ?c],
               partial_in_filters := (partial_in_filters m1)[builder_idx ?c := builder_in_filters ?c],
               partial_bloom_filter_build_params :=
                 (partial_bloom_filter_build_params m1)[builder_idx ?c := builder_params ?c],
               num_active_builders := 0,
               bloom_filter_descriptors := builder_descriptors ?c\<rparr>"
  have a1: "length (partial_in_filters ?m3in) = length (ht_row_counts ?m3in)" using l by simp
  have a2: "ht_row_counts ?m3in \<noteq> []" using l N by auto
  have a3: "\<forall>x \<in> set (partial_in_filters ?m3in). x = [] \<or> length x = w"
  proof -
    have "\<forall>y \<in> set ((partial_in_filters m1)[builder_idx ?c := builder_in_filters ?c]). y = [] \<or> length y = w"
    proof (rule slots_after_prefix[where xs = "partial_in_filters ?m0" and cs = ?bs
          and idx = builder_idx and val = builder_in_filters and N = ?N])
      show "length (partial_in_filters ?m0) = ?N" by (rule p(2))
      show "length (partial_in_filters m1) = ?N" by (rule l(2))
      show "\<forall>c \<in> set ?bs. partial_in_filters m1 ! builder_idx c = builder_in_filters c" using st by simp
      show "\<forall>i. i \<notin> builder_idx ` set ?bs \<longrightarrow> partial_in_filters m1 ! i = partial_in_filters ?m0 ! i"
        using fr by simp
      show "\<forall>x \<in> set (partial_in_filters ?m0). x = [] \<or> length x = w" by (simp add: new_merger_def)
      show "\<forall>c \<in> set ?bs. builder_in_filters c = [] \<or> length (builder_in_filters c) = w"
        using al bin by simp
      show "builder_in_filters ?c = [] \<or> length (builder_in_filters ?c) = w" using al cin by simp
    qed
    then show ?thesis by simp
  qed
  from merge_in_filters_defined[OF a1 a2 a3, of pm] obtain st1 pif1 where
    mi: "merge_in_filters pm ?m3in = Some (st1, ?m3in\<lparr>partial_in_filters := pif1\<rparr>)" by blast
  let ?m3 = "?m3in\<lparr>partial_in_filters := pif1\<rparr>"
  have b: "\<forall>ps \<in> set (partial_bloom_filter_build_params ?m3). length ps \<le> length (bloom_filter_descriptors ?m3)"
  proof -
    have "\<forall>y \<in> set ((partial_bloom_filter_build_params m1)[builder_idx ?c := builder_params ?c]).
            length y \<le> length (builder_descriptors ?c)"
    proof (rule slots_after_prefix[where xs = "partial_bloom_filter_build_params ?m0" and cs = ?bs
          and idx = builder_idx and val = builder_params and N = ?N])
      show "length (partial_bloom_filter_build_params ?m0) = ?N" by (rule p(3))
      show "length (partial_bloom_filter_build_params m1) = ?N" by (rule l(3))
      show "\<forall>c \<in> set ?bs. partial_bloom_filter_build_params m1 ! builder_idx c = builder_params c"
        using st by simp
      show "\<forall>i. i \<notin> builder_idx ` set ?bs \<longrightarrow>
          partial_bloom_filter_build_params m1 ! i = partial_bloom_filter_build_params ?m0 ! i"
        using fr by simp
      show "\<forall>x \<in> set (partial_bloom_filter_build_params ?m0). length x \<le> length (builder_descriptors ?c)"
        by (simp add: new_merger_def)
      show "\<forall>c \<in> set ?bs. length (builder_params c) \<le> length (builder_descriptors ?c)"
        using par bin by simp
      show "length (builder_params ?c) \<le> length (builder_descriptors ?c)" using par cin by simp
    qed
    then show ?thesis by simp
  qed
  from merge_bloom_filters_defined[OF b, of h] obtain st2 m2 where
    mb: "merge_bloom_filters h ?m3 = Some (st2, m2)" by blast
  have ap: "add_partial_filters pm h (builder_idx ?c) (builder_ht_row_count ?c) (builder_in_filters ?c)
              (builder_params ?c) (builder_descriptors ?c) m1 = Some (Inr True, m2)"
    by (rule add_partial_filters_last[OF _ _ _ one mi mb]) (use ic l in simp_all)
  have run: "merger_run pm h ?m0 cs = Some (replicate (?N - 1) (Inr False) @ [Inr True], m2)"
    using merger_run_append[of pm h ?m0 ?bs ?c] r ap lb split by simp
  have r1: "merger_run pm h ?m0 ?bs = Some (replicate (?N - 1) (Inr False), m1)" using r lb by simp
  have s1: "\<forall>c \<in> set ?bs. partial_in_filters m1 ! builder_idx c = builder_in_filters c" using st by simp
  have ex: "\<exists>st1 m3 st2. merge_in_filters pm ?m3in = Some (st1, m3) \<and> merge_bloom_filters h m3 = Some (st2, m2)"
    using mi mb by blast
  show ?thesis
    apply (rule exI[where x = m1])
    apply (rule exI[where x = m2])
    using r1 d0 s1 run ex by blast
qed

text \<open>
  The three builders of scenario S1 of the specification, calling in the order 2, 0, 1.
\<close>

theorem add_partial_filters_rendezvous_witness:
  "map_option fst (merger_run (\<lambda>a b. (OK, a \<union> b))
     \<lparr>create_runtime_bloom_filter = (\<lambda>_. None), init = (\<lambda>n f. f), set_join_mode = (\<lambda>_ f. f),
       fill_runtime_bloom_filter = (\<lambda>c t f e. (OK, f))\<rparr>
     (new_merger 1024 3 :: (int set, unit, unit, unit, unit) PartialRuntimeFilterMerger)
     [\<lparr>builder_idx = 2, builder_ht_row_count = 20, builder_in_filters = [Some {3, 4, 5}],
        builder_params = [], builder_descriptors = []\<rparr>,
      \<lparr>builder_idx = 0, builder_ht_row_count = 10, builder_in_filters = [Some {1, 2, 3}],
        builder_params = [], builder_descriptors = []\<rparr>,
      \<lparr>builder_idx = 1, builder_ht_row_count = 0, builder_in_filters = [],
        builder_params = [], builder_descriptors = []\<rparr>])
   = Some [Inr False, Inr False, Inr True]"
proof -
  let ?cs = "[\<lparr>builder_idx = 2, builder_ht_row_count = 20, builder_in_filters = [Some {3, 4, 5 :: int}],
        builder_params = [], builder_descriptors = []\<rparr>,
      \<lparr>builder_idx = 0, builder_ht_row_count = 10, builder_in_filters = [Some {1, 2, 3}],
        builder_params = [], builder_descriptors = []\<rparr>,
      \<lparr>builder_idx = 1, builder_ht_row_count = 0, builder_in_filters = [],
        builder_params = [], builder_descriptors = []\<rparr>]
      :: (int set, unit, unit, unit, unit) partial_filters list"
  let ?h = "\<lparr>create_runtime_bloom_filter = (\<lambda>_. None), init = (\<lambda>n f. f), set_join_mode = (\<lambda>_ f. f),
       fill_runtime_bloom_filter = (\<lambda>c t f e. (OK, f))\<rparr> :: (unit, unit, unit, unit) RuntimeFilterHelper"
  have 1: "(3::size_t) \<noteq> 0" by simp
  have 2: "length ?cs = unat (3::size_t)" by simp
  have 3: "\<forall>c \<in> set ?cs. builder_idx c < unat (3::size_t)" by simp
  have 4: "distinct (map builder_idx ?cs)" by simp
  have 5: "\<forall>c \<in> set ?cs. builder_in_filters c = [] \<or> length (builder_in_filters c) = 1" by simp
  have 6: "\<forall>c \<in> set ?cs. length (builder_params c) \<le> length (builder_descriptors (last ?cs))" by simp
  have "unat (3::size_t) - 1 = Suc (Suc 0)" by simp
  then have e: "replicate (unat (3::size_t) - 1) (Inr False :: Status + bool) = [Inr False, Inr False]"
    by (simp only: replicate.simps)
  from add_partial_filters_rendezvous[OF 1 2 3 4 5 6, of "\<lambda>a b. (OK, a \<union> b)" ?h 1024]
  obtain m2 where "merger_run (\<lambda>a b. (OK, a \<union> b)) ?h (new_merger 1024 3) ?cs =
      Some (replicate (unat (3::size_t) - 1) (Inr False) @ [Inr True], m2)"
    by auto
  then show ?thesis unfolding e by simp
qed

text \<open>\<^verbatim>\<open>add_partial_filters\<close> returns no status: its result is always a flag.\<close>

lemma add_partial_filters_never_error:
  "add_partial_filters pm h idx rc fs ps ds m = Some (r, m1) \<Longrightarrow> \<exists>b. r = Inr b"
  by (auto simp: add_partial_filters_def Let_def split: if_splits option.splits)

text \<open>
  C3. The claim asks that a failing predicate merge is returned by the last builder's
  \<^verbatim>\<open>add_partial_filters\<close>. Two builders hand over one in-filter each and every
  \<^verbatim>\<open>Predicate::merge\<close> fails: \<^verbatim>\<open>merge_in_filters\<close> returns the error on the state that the
  last call merges, and the last call returns \<^verbatim>\<open>true\<close> all the same.
\<close>

theorem add_partial_filters_drops_merge_error:
  "map_option fst (merge_in_filters (\<lambda>a b. (Error ''merge failed'', a))
       (\<lparr>limit = 1024, num_active_builders = 0, ht_row_counts = [5, 5],
         partial_in_filters = [[Some (7::nat)], [Some 9]],
         partial_bloom_filter_build_params = [[], []],
         bloom_filter_descriptors = []\<rparr> :: (nat, unit, unit, unit, unit) PartialRuntimeFilterMerger))
     = Some (Error ''merge failed'') \<and>
   map_option fst (merger_run (\<lambda>a b. (Error ''merge failed'', a))
       \<lparr>create_runtime_bloom_filter = (\<lambda>_. None), init = (\<lambda>n f. f), set_join_mode = (\<lambda>_ f. f),
         fill_runtime_bloom_filter = (\<lambda>c t f e. (OK, f))\<rparr>
       (new_merger 1024 2 :: (nat, unit, unit, unit, unit) PartialRuntimeFilterMerger)
       [\<lparr>builder_idx = 0, builder_ht_row_count = 5, builder_in_filters = [Some 7],
          builder_params = [], builder_descriptors = []\<rparr>,
        \<lparr>builder_idx = 1, builder_ht_row_count = 5, builder_in_filters = [Some 9],
          builder_params = [], builder_descriptors = []\<rparr>])
     = Some [Inr False, Inr True]"
  by code_simp

end
